theory Spec2Isabelle
  imports Main
begin

section \<open>TempMap: a map with temporary elements (src/tempmap.js)\<close>

text \<open>
  The class \<open>TempMap extends Map\<close> stores, under every key, an item object
  \<open>{value, timer?}\<close>, where \<open>timer\<close> is \<open>{timer, timeout, timestamp}\<close>: the host
  \<open>Timeout\<close> object returned by \<open>setTimeout\<close>, the configured duration and the
  instant of the last arm or refresh.

  Conventions of the embedding:
  \<^item> instants and durations are \<open>int\<close> (milliseconds);
  \<^item> the host is a record \<open>world\<close>: the clock read by \<open>Date.now()\<close> and the table of
    the \<open>Timeout\<close> objects created so far. A \<open>Timeout\<close> is identified by its index in
    that table. All methods run synchronously, so the clock does not move during a call;
  \<^item> the inherited \<open>Map\<close> is an association list in insertion order;
  \<^item> a method takes the world and the container and returns its result with the new
    world and the new container; \<open>undefined\<close> as a result is \<open>None\<close>;
  \<^item> keys and values are of arbitrary types; HOL equality stands for the host's key
    equality and for \<open>Object.is\<close> on values.
\<close>

subsection \<open>The host: clock and timers\<close>

record 'k htimer =
  cb_key :: 'k
  duration :: int
  start :: int
  active :: bool

record 'k world =
  now :: int
  timers :: "'k htimer list"

text \<open>\<open>setTimeout(() => super.delete(key), timeout)\<close>: a new active \<open>Timeout\<close>.\<close>

definition host_setTimeout :: "'k world \<Rightarrow> 'k \<Rightarrow> int \<Rightarrow> nat \<times> 'k world" where
  "host_setTimeout w key t =
     (length (timers w),
      w\<lparr>timers := timers w @ [\<lparr>cb_key = key, duration = t, start = now w, active = True\<rparr>]\<rparr>)"

text \<open>\<open>clearTimeout(item.timer?.timer)\<close>: nothing happens on \<open>undefined\<close>.\<close>

definition host_clearTimeout :: "'k world \<Rightarrow> nat option \<Rightarrow> 'k world" where
  "host_clearTimeout w h =
     (case h of
        None \<Rightarrow> w
      | Some i \<Rightarrow>
          if i < length (timers w)
          then w\<lparr>timers := (timers w)[i := (timers w ! i)\<lparr>active := False\<rparr>]\<rparr>
          else w)"

text \<open>\<open>timeout.refresh()\<close>: the start time becomes the current time; a cleared
  \<open>Timeout\<close> stays cleared.\<close>

definition host_refresh :: "'k world \<Rightarrow> nat \<Rightarrow> 'k world" where
  "host_refresh w i =
     (if i < length (timers w) \<and> active (timers w ! i)
      then w\<lparr>timers := (timers w)[i := (timers w ! i)\<lparr>start := now w\<rparr>]\<rparr>
      else w)"

subsection \<open>Items\<close>

text \<open>The three kinds of \<open>timeout\<close> argument and of \<open>getItemTimeout\<close> result.\<close>

datatype tmo = Undefined | Null | Num int

record tmr =
  handle :: nat
  timeout :: int
  timestamp :: int

record 'v item =
  item_value :: 'v
  timer :: "tmr option"

type_synonym ('k, 'v) tempmap = "('k \<times> 'v item) list"

text \<open>The inherited \<open>Map\<close>: \<open>super.get\<close> is \<^const>\<open>map_of\<close>, \<open>super.has\<close> is
  membership in the keys, \<open>super.size\<close> is \<^const>\<open>length\<close>.\<close>

definition keys :: "('k, 'v) tempmap \<Rightarrow> 'k list" where
  "keys m = map fst m"

definition has :: "('k, 'v) tempmap \<Rightarrow> 'k \<Rightarrow> bool" where
  "has m key = (key \<in> set (keys m))"

text \<open>\<open>super.set(key, item)\<close>: an existing key keeps its position.\<close>

fun map_set :: "('k, 'v) tempmap \<Rightarrow> 'k \<Rightarrow> 'v item \<Rightarrow> ('k, 'v) tempmap" where
  "map_set [] key it = [(key, it)]"
| "map_set ((k, i) # m) key it =
     (if k = key then (k, it) # m else (k, i) # map_set m key it)"

text \<open>\<open>super.delete(key)\<close>.\<close>

definition map_delete :: "('k, 'v) tempmap \<Rightarrow> 'k \<Rightarrow> ('k, 'v) tempmap" where
  "map_delete m key = filter (\<lambda>(k, i). k \<noteq> key) m"

text \<open>An item object is mutated in place: the entry stored under its key changes,
  its position does not.\<close>

definition store :: "('k, 'v) tempmap \<Rightarrow> 'k \<Rightarrow> 'v item \<Rightarrow> ('k, 'v) tempmap" where
  "store m key it = map (\<lambda>(k, i). if k = key then (k, it) else (k, i)) m"

definition getItemTimeout :: "int \<Rightarrow> 'v item option \<Rightarrow> bool \<Rightarrow> tmo" where
  "getItemTimeout n item remaining =
     (case item of
        None \<Rightarrow> Undefined
      | Some it \<Rightarrow>
          (case timer it of
             None \<Rightarrow> Undefined
           | Some t \<Rightarrow>
               if \<not> remaining then Num (timeout t)
               else (let r = timeout t - (n - timestamp t)
                     in if r > 0 then Num r else Null)))"

definition refreshItemTimeout :: "'k world \<Rightarrow> 'v item \<Rightarrow> 'k world \<times> 'v item" where
  "refreshItemTimeout w it =
     (case timer it of
        None \<Rightarrow> (w, it)
      | Some t \<Rightarrow>
          (host_refresh w (handle t), it\<lparr>timer := Some (t\<lparr>timestamp := now w\<rparr>)\<rparr>))"

subsection \<open>Private methods\<close>

definition getItem ::
  "'k world \<Rightarrow> ('k, 'v) tempmap \<Rightarrow> 'k \<Rightarrow> bool
     \<Rightarrow> 'v item option \<times> 'k world \<times> ('k, 'v) tempmap" where
  "getItem w m key refreshTimeout =
     (if refreshTimeout
      then (case map_of m key of
              None \<Rightarrow> (None, w, m)
            | Some it \<Rightarrow>
                (let (w', it') = refreshItemTimeout w it
                 in (Some it', w', store m key it')))
      else (map_of m key, w, m))"

definition priv_setTimeout :: "'k world \<Rightarrow> 'k \<Rightarrow> 'v item \<Rightarrow> int \<Rightarrow> 'k world \<times> 'v item" where
  "priv_setTimeout w key it t =
     (if t > 0
      then (let (h, w') = host_setTimeout w key t
            in (w', it\<lparr>timer := Some \<lparr>handle = h, timeout = t, timestamp = now w\<rparr>\<rparr>))
      else (w, it\<lparr>timer := None\<rparr>))"

text \<open>\<open>#setItem(key, item, value, timeout)\<close>: \<open>item\<close> is the object stored under
  \<open>key\<close>, or \<open>null\<close>.\<close>

definition setItem ::
  "'k world \<Rightarrow> ('k, 'v) tempmap \<Rightarrow> 'k \<Rightarrow> 'v item option \<Rightarrow> 'v \<Rightarrow> tmo
     \<Rightarrow> 'v \<times> 'k world \<times> ('k, 'v) tempmap" where
  "setItem w m key item v t =
     (case item of
        Some it \<Rightarrow>
          (let it1 = it\<lparr>item_value := v\<rparr>
           in case t of
                Num n \<Rightarrow>
                  (let w1 = host_clearTimeout w (map_option handle (timer it1));
                       (w2, it2) = priv_setTimeout w1 key it1 n
                   in (v, w2, store m key it2))
              | Undefined \<Rightarrow>
                  (if timer it1 \<noteq> None
                   then (let (w1, it2) = refreshItemTimeout w it1
                         in (v, w1, store m key it2))
                   else (v, w, store m key it1))
              | Null \<Rightarrow> (v, w, store m key it1))
      | None \<Rightarrow>
          (let (w1, it1) =
                 priv_setTimeout w key \<lparr>item_value = v, timer = None\<rparr>
                   (case t of Num n \<Rightarrow> n | _ \<Rightarrow> 0)
           in (v, w1, map_set m key it1)))"

definition deleteItem ::
  "'k world \<Rightarrow> ('k, 'v) tempmap \<Rightarrow> 'k \<Rightarrow> 'v item option
     \<Rightarrow> 'v item option \<times> 'k world \<times> ('k, 'v) tempmap" where
  "deleteItem w m key item =
     (case item of
        None \<Rightarrow> (None, w, m)
      | Some it \<Rightarrow>
          (if has m key
           then (item, host_clearTimeout w (map_option handle (timer it)), map_delete m key)
           else (item, w, m)))"

subsection \<open>Reading and writing single elements\<close>

text \<open>\<open>defaultValue\<close> of \<open>ensure\<close>: a value, or a function of the key and the map.\<close>

datatype ('k, 'v) dflt = Val 'v | Fun "'k \<Rightarrow> ('k \<times> 'v item) list \<Rightarrow> 'v"

fun getValue :: "('k, 'v) dflt \<Rightarrow> 'k \<Rightarrow> ('k, 'v) tempmap \<Rightarrow> 'v" where
  "getValue (Val v) key m = v"
| "getValue (Fun f) key m = f key m"

definition get_tm ::
  "'k world \<Rightarrow> ('k, 'v) tempmap \<Rightarrow> 'k \<Rightarrow> bool \<Rightarrow> 'v option \<times> 'k world \<times> ('k, 'v) tempmap" where
  "get_tm w m key refreshTimeout =
     (let (item, w', m') = getItem w m key refreshTimeout
      in (map_option item_value item, w', m'))"

definition ensure ::
  "'k world \<Rightarrow> ('k, 'v) tempmap \<Rightarrow> 'k \<Rightarrow> ('k, 'v) dflt \<Rightarrow> tmo \<Rightarrow> bool
     \<Rightarrow> 'v \<times> 'k world \<times> ('k, 'v) tempmap" where
  "ensure w m key defaultValue t refreshTimeout =
     (let (item, w', m') = getItem w m key refreshTimeout
      in case item of
           Some it \<Rightarrow> (item_value it, w', m')
         | None \<Rightarrow> setItem w' m' key None (getValue defaultValue key m') t)"

definition set_tm ::
  "'k world \<Rightarrow> ('k, 'v) tempmap \<Rightarrow> 'k \<Rightarrow> 'v \<Rightarrow> tmo \<Rightarrow> 'v \<times> 'k world \<times> ('k, 'v) tempmap" where
  "set_tm w m key v t = setItem w m key (map_of m key) v t"

definition add ::
  "'k world \<Rightarrow> ('k, 'v) tempmap \<Rightarrow> 'k \<Rightarrow> 'v \<Rightarrow> tmo
     \<Rightarrow> 'v option \<times> 'k world \<times> ('k, 'v) tempmap" where
  "add w m key v t =
     (case map_of m key of
        Some it \<Rightarrow> (None, w, m)
      | None \<Rightarrow> (let (r, w', m') = setItem w m key None v t in (Some r, w', m')))"

definition update ::
  "'k world \<Rightarrow> ('k, 'v) tempmap \<Rightarrow> 'k \<Rightarrow> 'v \<Rightarrow> tmo
     \<Rightarrow> 'v option \<times> 'k world \<times> ('k, 'v) tempmap" where
  "update w m key v t =
     (case map_of m key of
        None \<Rightarrow> (None, w, m)
      | Some it \<Rightarrow> (let (r, w', m') = setItem w m key (Some it) v t in (Some r, w', m')))"

definition delete ::
  "'k world \<Rightarrow> ('k, 'v) tempmap \<Rightarrow> 'k \<Rightarrow> 'v option \<times> 'k world \<times> ('k, 'v) tempmap" where
  "delete w m key =
     (let (item, w', m') = deleteItem w m key (map_of m key)
      in (map_option item_value item, w', m'))"

text \<open>\<open>at(index, refreshTimeout)\<close>: the loop compares \<open>index\<close> with a counter
  that starts at 0; when no position matches the method returns \<open>undefined\<close>.\<close>

fun at_loop ::
  "'k world \<Rightarrow> ('k, 'v) tempmap \<Rightarrow> ('k, 'v) tempmap \<Rightarrow> int \<Rightarrow> int \<Rightarrow> bool
     \<Rightarrow> ('k \<times> 'v) option \<times> 'k world \<times> ('k, 'v) tempmap" where
  "at_loop w m [] index i refreshTimeout = (None, w, m)"
| "at_loop w m ((key, it) # rest) index i refreshTimeout =
     (if index = i
      then (if refreshTimeout
            then (let (w', it') = refreshItemTimeout w it
                  in (Some (key, item_value it'), w', store m key it'))
            else (Some (key, item_value it), w, m))
      else at_loop w m rest index (i + 1) refreshTimeout)"

definition at ::
  "'k world \<Rightarrow> ('k, 'v) tempmap \<Rightarrow> int \<Rightarrow> bool
     \<Rightarrow> ('k \<times> 'v) option \<times> 'k world \<times> ('k, 'v) tempmap" where
  "at w m index refreshTimeout =
     at_loop w m m (if index < 0 then int (length m) + index else index) 0 refreshTimeout"

subsection \<open>Deleting\<close>

text \<open>\<open>sweep(fn)\<close>: the loop visits every entry once; the test function sees the
  map as it is at that moment.\<close>

fun sweep_loop ::
  "'k world \<Rightarrow> ('k, 'v) tempmap \<Rightarrow> ('v \<Rightarrow> 'k \<Rightarrow> ('k, 'v) tempmap \<Rightarrow> bool)
     \<Rightarrow> ('k, 'v) tempmap \<Rightarrow> 'k world \<times> ('k, 'v) tempmap" where
  "sweep_loop w m fn [] = (w, m)"
| "sweep_loop w m fn ((key, it) # rest) =
     (if fn (item_value it) key m
      then (let (r, w', m') = deleteItem w m key (Some it) in sweep_loop w' m' fn rest)
      else sweep_loop w m fn rest)"

definition sweep ::
  "'k world \<Rightarrow> ('k, 'v) tempmap \<Rightarrow> ('v \<Rightarrow> 'k \<Rightarrow> ('k, 'v) tempmap \<Rightarrow> bool)
     \<Rightarrow> int \<times> 'k world \<times> ('k, 'v) tempmap" where
  "sweep w m fn =
     (let (w', m') = sweep_loop w m fn m
      in (int (length m) - int (length m'), w', m'))"

definition clear :: "'k world \<Rightarrow> ('k, 'v) tempmap \<Rightarrow> int \<times> 'k world \<times> ('k, 'v) tempmap" where
  "clear w m = sweep w m (\<lambda>v k mp. True)"

subsection \<open>Iteration\<close>

fun entries_tm :: "('k, 'v) tempmap \<Rightarrow> ('k \<times> 'v) list" where
  "entries_tm [] = []"
| "entries_tm ((key, it) # rest) = (key, item_value it) # entries_tm rest"

fun values_tm :: "('k, 'v) tempmap \<Rightarrow> 'v list" where
  "values_tm [] = []"
| "values_tm ((key, it) # rest) = item_value it # values_tm rest"

fun first_loop :: "('k, 'v) tempmap \<Rightarrow> int \<Rightarrow> int \<Rightarrow> ('k \<times> 'v) list \<Rightarrow> ('k \<times> 'v) list" where
  "first_loop [] index count items = items"
| "first_loop ((key, it) # rest) index count items =
     (if index \<ge> count then items
      else first_loop rest (index + 1) count (items @ [(key, item_value it)]))"

definition first :: "('k, 'v) tempmap \<Rightarrow> int \<Rightarrow> ('k \<times> 'v) list" where
  "first m count = first_loop m 0 count []"

fun last_loop ::
  "('k, 'v) tempmap \<Rightarrow> int \<Rightarrow> int \<Rightarrow> int \<Rightarrow> ('k \<times> 'v) list \<Rightarrow> ('k \<times> 'v) list" where
  "last_loop [] sz index count items = items"
| "last_loop ((key, it) # rest) sz index count items =
     last_loop rest sz (index + 1) count
       (if index \<ge> sz - count then items @ [(key, item_value it)] else items)"

definition last_tm :: "('k, 'v) tempmap \<Rightarrow> int \<Rightarrow> ('k \<times> 'v) list" where
  "last_tm m count = last_loop m (int (length m)) 0 count []"

text \<open>\<open>map(fn)\<close>: \<open>Array.from\<close> calls \<open>iter.next()\<close> once per index below
  \<open>this.size\<close>; destructuring an exhausted iterator's \<open>undefined\<close> would throw
  (\<open>None\<close>).\<close>

fun map_loop ::
  "('v \<Rightarrow> 'k \<Rightarrow> ('k, 'v) tempmap \<Rightarrow> 'r) \<Rightarrow> ('k, 'v) tempmap \<Rightarrow> nat \<Rightarrow> ('k, 'v) tempmap
     \<Rightarrow> 'r list option" where
  "map_loop fn this 0 iter = Some []"
| "map_loop fn this (Suc n) [] = None"
| "map_loop fn this (Suc n) ((key, it) # iter) =
     (case map_loop fn this n iter of
        None \<Rightarrow> None
      | Some rs \<Rightarrow> Some (fn (item_value it) key this # rs))"

definition map_tm ::
  "('k, 'v) tempmap \<Rightarrow> ('v \<Rightarrow> 'k \<Rightarrow> ('k, 'v) tempmap \<Rightarrow> 'r) \<Rightarrow> 'r list option" where
  "map_tm m fn = map_loop fn m (length m) m"

subsection \<open>Derived collections\<close>

definition copyItem ::
  "'k world \<Rightarrow> ('k, 'v) tempmap \<Rightarrow> 'k \<Rightarrow> 'v item \<Rightarrow> bool \<Rightarrow> bool
     \<Rightarrow> 'v option \<times> 'k world \<times> ('k, 'v) tempmap" where
  "copyItem w m key it ens refreshTimeout =
     (let t = getItemTimeout (now w) (Some it) (\<not> refreshTimeout)
      in if t = Null then (None, w, m)
         else if ens
         then (let (r, w', m') = ensure w m key (Fun (\<lambda>k mp. item_value it)) t True
               in (Some r, w', m'))
         else (let (r, w', m') = set_tm w m key (item_value it) t
               in (Some r, w', m')))"

text \<open>The loop shared by \<open>clone\<close> and \<open>sort\<close>:
  \<open>for (const [key, item] of entries) map.#copyItem(key, item, false, refreshTimeout)\<close>.\<close>

fun copy_loop ::
  "'k world \<Rightarrow> ('k, 'v) tempmap \<Rightarrow> ('k, 'v) tempmap \<Rightarrow> bool \<Rightarrow> 'k world \<times> ('k, 'v) tempmap" where
  "copy_loop w dst [] refreshTimeout = (w, dst)"
| "copy_loop w dst ((key, it) # rest) refreshTimeout =
     (let (r, w', dst') = copyItem w dst key it False refreshTimeout
      in copy_loop w' dst' rest refreshTimeout)"

definition clone :: "'k world \<Rightarrow> ('k, 'v) tempmap \<Rightarrow> bool \<Rightarrow> 'k world \<times> ('k, 'v) tempmap" where
  "clone w m refreshTimeout = copy_loop w [] m refreshTimeout"

fun filter_loop ::
  "'k world \<Rightarrow> ('k, 'v) tempmap \<Rightarrow> ('k, 'v) tempmap
     \<Rightarrow> ('v \<Rightarrow> 'k \<Rightarrow> ('k, 'v) tempmap \<Rightarrow> bool) \<Rightarrow> ('k, 'v) tempmap \<Rightarrow> bool
     \<Rightarrow> 'k world \<times> ('k, 'v) tempmap" where
  "filter_loop w this dst fn [] refreshTimeout = (w, dst)"
| "filter_loop w this dst fn ((key, it) # rest) refreshTimeout =
     (if fn (item_value it) key this
      then (let (r, w', dst') = copyItem w dst key it False refreshTimeout
            in filter_loop w' this dst' fn rest refreshTimeout)
      else filter_loop w this dst fn rest refreshTimeout)"

definition filter_tm ::
  "'k world \<Rightarrow> ('k, 'v) tempmap \<Rightarrow> ('v \<Rightarrow> 'k \<Rightarrow> ('k, 'v) tempmap \<Rightarrow> bool) \<Rightarrow> bool
     \<Rightarrow> 'k world \<times> ('k, 'v) tempmap" where
  "filter_tm w m fn refreshTimeout = filter_loop w m [] fn m refreshTimeout"

fun partition_loop ::
  "'k world \<Rightarrow> ('k, 'v) tempmap \<Rightarrow> ('k, 'v) tempmap \<Rightarrow> ('k, 'v) tempmap
     \<Rightarrow> ('v \<Rightarrow> 'k \<Rightarrow> ('k, 'v) tempmap \<Rightarrow> bool) \<Rightarrow> ('k, 'v) tempmap \<Rightarrow> bool
     \<Rightarrow> 'k world \<times> ('k, 'v) tempmap \<times> ('k, 'v) tempmap" where
  "partition_loop w this d0 d1 fn [] refreshTimeout = (w, d0, d1)"
| "partition_loop w this d0 d1 fn ((key, it) # rest) refreshTimeout =
     (if fn (item_value it) key this
      then (let (r, w', d0') = copyItem w d0 key it False refreshTimeout
            in partition_loop w' this d0' d1 fn rest refreshTimeout)
      else (let (r, w', d1') = copyItem w d1 key it False refreshTimeout
            in partition_loop w' this d0 d1' fn rest refreshTimeout))"

definition partition_tm ::
  "'k world \<Rightarrow> ('k, 'v) tempmap \<Rightarrow> ('v \<Rightarrow> 'k \<Rightarrow> ('k, 'v) tempmap \<Rightarrow> bool) \<Rightarrow> bool
     \<Rightarrow> 'k world \<times> ('k, 'v) tempmap \<times> ('k, 'v) tempmap" where
  "partition_tm w m fn refreshTimeout = partition_loop w m [] [] fn m refreshTimeout"

text \<open>The argument of \<open>concat\<close> is either the receiver itself (\<open>this === other\<close>)
  or another container.\<close>

datatype ('k, 'v) other = This | Other "('k \<times> 'v item) list"

fun concat_loop ::
  "'k world \<Rightarrow> ('k, 'v) tempmap \<Rightarrow> ('k, 'v) tempmap \<Rightarrow> bool \<Rightarrow> 'k world \<times> ('k, 'v) tempmap" where
  "concat_loop w this [] refreshTimeout = (w, this)"
| "concat_loop w this ((key, it) # rest) refreshTimeout =
     (let (r, w', this') = copyItem w this key it True refreshTimeout
      in concat_loop w' this' rest refreshTimeout)"

definition concat_tm ::
  "'k world \<Rightarrow> ('k, 'v) tempmap \<Rightarrow> ('k, 'v) other \<Rightarrow> bool \<Rightarrow> 'k world \<times> ('k, 'v) tempmap" where
  "concat_tm w this other refreshTimeout =
     (case other of
        This \<Rightarrow> (w, this)
      | Other om \<Rightarrow> concat_loop w this om refreshTimeout)"

text \<open>\<open>difference\<close> calls \<open>concat\<close> on two fresh containers, without passing
  \<open>refreshTimeout\<close> on (so with its default, \<open>true\<close>).\<close>

definition difference ::
  "'k world \<Rightarrow> ('k, 'v) tempmap \<Rightarrow> ('k, 'v) tempmap \<Rightarrow> bool \<Rightarrow> 'k world \<times> ('k, 'v) tempmap" where
  "difference w this other refreshTimeout =
     (let (w1, a) = filter_tm w this (\<lambda>v key mp. \<not> has other key) refreshTimeout;
          (w2, b) = filter_tm w1 other (\<lambda>v key mp. \<not> has this key) refreshTimeout
      in concat_tm w2 a (Other b) True)"

definition intersect ::
  "'k world \<Rightarrow> ('k, 'v) tempmap \<Rightarrow> ('k, 'v) tempmap \<Rightarrow> bool \<Rightarrow> 'k world \<times> ('k, 'v) tempmap" where
  "intersect w this other refreshTimeout =
     filter_tm w this
       (\<lambda>v key mp. case map_of other key of None \<Rightarrow> False | Some it \<Rightarrow> v = item_value it)
       refreshTimeout"

text \<open>\<open>Array.prototype.sort\<close> is stable: insertion sort, an element staying in front
  of a later one unless the comparator returns a positive number.\<close>

fun insert_sorted :: "('a \<Rightarrow> 'a \<Rightarrow> int) \<Rightarrow> 'a \<Rightarrow> 'a list \<Rightarrow> 'a list" where
  "insert_sorted cmp x [] = [x]"
| "insert_sorted cmp x (y # ys) =
     (if cmp x y \<le> 0 then x # y # ys else y # insert_sorted cmp x ys)"

fun array_sort :: "('a \<Rightarrow> 'a \<Rightarrow> int) \<Rightarrow> 'a list \<Rightarrow> 'a list" where
  "array_sort cmp [] = []"
| "array_sort cmp (x # xs) = insert_sorted cmp x (array_sort cmp xs)"

definition sort_tm ::
  "'k world \<Rightarrow> ('k, 'v) tempmap \<Rightarrow> ('v \<Rightarrow> 'v \<Rightarrow> 'k \<Rightarrow> 'k \<Rightarrow> int) \<Rightarrow> bool
     \<Rightarrow> 'k world \<times> ('k, 'v) tempmap" where
  "sort_tm w m fn refreshTimeout =
     (let entries = array_sort
            (\<lambda>a b. fn (item_value (snd a)) (item_value (snd b)) (fst a) (fst b)) m;
          (n, w1, m1) = clear w m
      in copy_loop w1 m1 entries refreshTimeout)"

subsection \<open>Host values: comparison, conversion, truthiness\<close>

text \<open>The primitive values that \<open>defaultSort\<close> and \<open>forEach\<close> inspect. Numbers are
  integers; a string is its list of code units.\<close>

datatype jsval = JUndefined | JNull | JBool bool | JNum int | JStr string

fun nat_digits :: "nat \<Rightarrow> string" where
  "nat_digits n =
     (if n < 10 then [char_of (48 + n)]
      else nat_digits (n div 10) @ [char_of (48 + n mod 10)])"

text \<open>\<open>String(v)\<close>.\<close>

fun ToString :: "jsval \<Rightarrow> string" where
  "ToString JUndefined = ''undefined''"
| "ToString JNull = ''null''"
| "ToString (JBool b) = (if b then ''true'' else ''false'')"
| "ToString (JNum i) = (if i < 0 then CHR ''-'' # nat_digits (nat (- i)) else nat_digits (nat i))"
| "ToString (JStr s) = s"

fun parse_digits :: "string \<Rightarrow> nat \<Rightarrow> nat option" where
  "parse_digits [] acc = Some acc"
| "parse_digits (c # cs) acc =
     (if 48 \<le> (of_char c :: nat) \<and> (of_char c :: nat) \<le> 57
      then parse_digits cs (10 * acc + (of_char c - 48))
      else None)"

text \<open>\<open>Number(v)\<close>, with \<open>None\<close> for \<open>NaN\<close>. Of the numeric strings only the empty
  string and signed decimal integers are read; every other string is \<open>NaN\<close>.\<close>

definition StringToNumber :: "string \<Rightarrow> int option" where
  "StringToNumber s =
     (case s of
        [] \<Rightarrow> Some 0
      | c # cs \<Rightarrow>
          if c = CHR ''-'' \<and> cs \<noteq> [] then map_option (\<lambda>n. - int n) (parse_digits cs 0)
          else if c = CHR ''+'' \<and> cs \<noteq> [] then map_option int (parse_digits cs 0)
          else map_option int (parse_digits s 0))"

fun ToNumber :: "jsval \<Rightarrow> int option" where
  "ToNumber JUndefined = None"
| "ToNumber JNull = Some 0"
| "ToNumber (JBool b) = Some (if b then 1 else 0)"
| "ToNumber (JNum i) = Some i"
| "ToNumber (JStr s) = StringToNumber s"

text \<open>Strings compare by code units, lexicographically.\<close>

fun str_less :: "string \<Rightarrow> string \<Rightarrow> bool" where
  "str_less [] [] = False"
| "str_less [] (y # ys) = True"
| "str_less (x # xs) [] = False"
| "str_less (x # xs) (y # ys) =
     ((of_char x :: nat) < of_char y \<or> (x = y \<and> str_less xs ys))"

text \<open>\<open>a > b\<close>: two strings compare as strings, everything else as numbers, and a
  comparison with \<open>NaN\<close> is false.\<close>

definition js_gt :: "jsval \<Rightarrow> jsval \<Rightarrow> bool" where
  "js_gt a b =
     (case (a, b) of
        (JStr s, JStr t) \<Rightarrow> str_less t s
      | _ \<Rightarrow> (case (ToNumber a, ToNumber b) of
                (Some x, Some y) \<Rightarrow> y < x
              | _ \<Rightarrow> False))"

text \<open>\<open>Number(firstValue > secondValue) || Number(firstValue === secondValue) - 1\<close>.\<close>

definition defaultSort :: "jsval \<Rightarrow> jsval \<Rightarrow> int" where
  "defaultSort firstValue secondValue =
     (let n = (if js_gt firstValue secondValue then 1 else 0)
      in if n \<noteq> 0 then n else (if firstValue = secondValue then 1 else 0) - 1)"

text \<open>The sign of comparing two strings by code units.\<close>

definition str_compare :: "string \<Rightarrow> string \<Rightarrow> int" where
  "str_compare s t = (if str_less s t then - 1 else if str_less t s then 1 else 0)"

fun truthy :: "jsval \<Rightarrow> bool" where
  "truthy JUndefined = False"
| "truthy JNull = False"
| "truthy (JBool b) = b"
| "truthy (JNum i) = (i \<noteq> 0)"
| "truthy (JStr s) = (s \<noteq> [])"

subsection \<open>forEach\<close>

text \<open>The callback is a function of its receiver and its three arguments that
  transforms the caller's state; it does not modify the container. A call without a
  bound receiver has the receiver \<open>undefined\<close>.\<close>

fun forEach_loop ::
  "('k \<Rightarrow> 'v \<Rightarrow> ('k, 'v) tempmap \<Rightarrow> 's \<Rightarrow> 's) \<Rightarrow> ('k, 'v) tempmap \<Rightarrow> ('k \<times> 'v) list \<Rightarrow> 's \<Rightarrow> 's" where
  "forEach_loop fn this [] s = s"
| "forEach_loop fn this ((key, v) # rest) s = forEach_loop fn this rest (fn key v this s)"

definition forEach ::
  "('k, 'v) tempmap \<Rightarrow> (jsval \<Rightarrow> 'k \<Rightarrow> 'v \<Rightarrow> ('k, 'v) tempmap \<Rightarrow> 's \<Rightarrow> 's) \<Rightarrow> jsval \<Rightarrow> 's
     \<Rightarrow> 's \<times> ('k, 'v) tempmap" where
  "forEach m fn thisArg s =
     (let fn' = (if truthy thisArg then fn thisArg else fn JUndefined)
      in (forEach_loop fn' m (entries_tm m) s, m))"

subsection \<open>Notions used in the statements\<close>

text \<open>The remaining time of a timer at an instant, and an item whose timer is due.\<close>

definition remaining_time :: "int \<Rightarrow> tmr \<Rightarrow> int" where
  "remaining_time n t = timeout t - (n - timestamp t)"

definition expired :: "int \<Rightarrow> 'v item \<Rightarrow> bool" where
  "expired n it = (case timer it of None \<Rightarrow> False | Some t \<Rightarrow> remaining_time n t \<le> 0)"

text \<open>An item as a caller can observe it: its value and, when it has a timer, the
  timer's duration and start instant.\<close>

definition view :: "'v item \<Rightarrow> 'v \<times> (int \<times> int) option" where
  "view it = (item_value it, map_option (\<lambda>t. (timeout t, timestamp t)) (timer it))"

definition views :: "('k, 'v) tempmap \<Rightarrow> ('k \<times> 'v \<times> (int \<times> int) option) list" where
  "views m = map (\<lambda>(k, it). (k, view it)) m"

text \<open>Whether the copy primitive copies an item, and the timer it gives the copy.\<close>

definition copied :: "int \<Rightarrow> bool \<Rightarrow> 'v item \<Rightarrow> bool" where
  "copied n refreshTimeout it = (refreshTimeout \<or> \<not> expired n it)"

definition copy_timer :: "int \<Rightarrow> bool \<Rightarrow> 'v item \<Rightarrow> (int \<times> int) option" where
  "copy_timer n refreshTimeout it =
     (case timer it of
        None \<Rightarrow> None
      | Some t \<Rightarrow>
          (let d = (if refreshTimeout then timeout t else remaining_time n t)
           in if d > 0 then Some (d, n) else None))"

text \<open>An item after a refresh at instant \<open>n\<close>.\<close>

definition refreshed :: "int \<Rightarrow> 'v item \<Rightarrow> 'v item" where
  "refreshed n it = it\<lparr>timer := map_option (\<lambda>t. t\<lparr>timestamp := n\<rparr>) (timer it)\<rparr>"

text \<open>What a caller observes of the copies of a list of entries made at instant \<open>n\<close>.\<close>

definition copy_views ::
  "int \<Rightarrow> bool \<Rightarrow> ('k, 'v) tempmap \<Rightarrow> ('k \<times> 'v \<times> (int \<times> int) option) list" where
  "copy_views n refreshTimeout xs =
     map (\<lambda>(k, it). (k, item_value it, copy_timer n refreshTimeout it))
       (filter (\<lambda>(k, it). copied n refreshTimeout it) xs)"

text \<open>A container in which the items under the keys in \<open>H\<close> have been refreshed.\<close>

definition refresh_hits :: "int \<Rightarrow> 'k set \<Rightarrow> ('k, 'v) tempmap \<Rightarrow> ('k, 'v) tempmap" where
  "refresh_hits n H m = map (\<lambda>(k, i). (k, if k \<in> H then refreshed n i else i)) m"

text \<open>The timer of an item is armed: its \<open>Timeout\<close> is in the host's table, active,
  with the item's key, duration and start instant.\<close>

definition armed :: "'k world \<Rightarrow> 'k \<Rightarrow> 'v item \<Rightarrow> bool" where
  "armed w key it =
     (case timer it of
        None \<Rightarrow> True
      | Some t \<Rightarrow>
          handle t < length (timers w) \<and>
          timers w ! handle t =
            \<lparr>cb_key = key, duration = timeout t, start = timestamp t, active = True\<rparr>)"

subsection \<open>Example states\<close>

text \<open>\<open>ex_world\<close> is a world at instant 20 with one \<open>Timeout\<close>, armed at instant 0
  for 10 ms; \<open>ex_due\<close> holds the entry of that timer, which is due and still stored.
  In \<open>ex_world2\<close> the \<open>Timeout\<close> runs for 100 ms; \<open>ex_live\<close> holds its entry, with
  80 ms left, and an entry without a timer. \<open>ex_A\<close> and \<open>ex_B\<close> have no timers.\<close>

definition ex_world :: "string world" where
  "ex_world = \<lparr>now = 20, timers = [\<lparr>cb_key = ''a'', duration = 10, start = 0, active = True\<rparr>]\<rparr>"

definition ex_due :: "(string, int) tempmap" where
  "ex_due = [(''a'', \<lparr>item_value = 1, timer = Some \<lparr>handle = 0, timeout = 10, timestamp = 0\<rparr>\<rparr>)]"

definition ex_world2 :: "string world" where
  "ex_world2 = \<lparr>now = 20, timers = [\<lparr>cb_key = ''a'', duration = 100, start = 0, active = True\<rparr>]\<rparr>"

definition ex_live :: "(string, int) tempmap" where
  "ex_live = [(''a'', \<lparr>item_value = 1, timer = Some \<lparr>handle = 0, timeout = 100, timestamp = 0\<rparr>\<rparr>),
              (''b'', \<lparr>item_value = 2, timer = None\<rparr>)]"

definition ex_A :: "(string, int) tempmap" where
  "ex_A = [(''x'', \<lparr>item_value = 1, timer = None\<rparr>), (''y'', \<lparr>item_value = 2, timer = None\<rparr>)]"

definition ex_B :: "(string, int) tempmap" where
  "ex_B = [(''y'', \<lparr>item_value = 2, timer = None\<rparr>), (''z'', \<lparr>item_value = 3, timer = None\<rparr>)]"

text \<open>A container of two numbers, inserted as 10 and then 9.\<close>

definition ex_nums :: "(string, jsval) tempmap" where
  "ex_nums = [(''a'', \<lparr>item_value = JNum 10, timer = None\<rparr>),
              (''b'', \<lparr>item_value = JNum 9, timer = None\<rparr>)]"

section \<open>Properties\<close>

subsection \<open>Iteration and positional access\<close>

lemma entries_tm_map: "entries_tm m = map (\<lambda>(k, it). (k, item_value it)) m"
  by (induction m) auto

lemma values_tm_map: "values_tm m = map (\<lambda>(k, it). item_value it) m"
  by (induction m) auto

lemma at_loop_none:
  "index < i \<or> i + int (length xs) \<le> index \<Longrightarrow> at_loop w m xs index i rt = (None, w, m)"
  by (induction xs arbitrary: i) auto

lemma last_loop_all:
  "sz - count \<le> index \<Longrightarrow> last_loop xs sz index count items = items @ entries_tm xs"
  by (induction xs arbitrary: index items) auto

lemma forEach_loop_fold: "forEach_loop fn this xs s = fold (\<lambda>(k, v). fn k v this) xs s"
  by (induction xs arbitrary: s) auto

lemma forEach_loop_log:
  "forEach_loop (\<lambda>k v mp log. log @ [(th, k, v, mp)]) this xs log =
     log @ map (\<lambda>(k, v). (th, k, v, this)) xs"
  by (induction xs arbitrary: log) auto

text \<open>
  Claim C8. \<open>add\<close> on a key that exists and \<open>update\<close> on a key that does not exist
  return \<open>undefined\<close> and leave the world and the container as they were; \<open>at\<close> with an
  index that is out of range, after a negative index has been counted from the end,
  returns \<open>undefined\<close> and changes nothing. None of the three raises.
\<close>

theorem absent_sentinel:
  "(map_of m key \<noteq> None \<longrightarrow> add w m key v t = (None, w, m)) \<and>
   (map_of m key = None \<longrightarrow> update w m key v t = (None, w, m)) \<and>
   ((let j = (if index < 0 then int (length m) + index else index)
     in j < 0 \<or> int (length m) \<le> j) \<longrightarrow> at w m index rt = (None, w, m))"
  by (auto simp: add_def update_def at_def Let_def at_loop_none split: option.splits)

theorem absent_sentinel_witness:
  "map_of ex_A ''x'' \<noteq> None \<and> add ex_world ex_A ''x'' 7 (Num 5) = (None, ex_world, ex_A) \<and>
   map_of ex_A ''z'' = None \<and> update ex_world ex_A ''z'' 7 (Num 5) = (None, ex_world, ex_A) \<and>
   at ex_world ex_A 2 True = (None, ex_world, ex_A) \<and>
   at ex_world ex_A (- 3) True = (None, ex_world, ex_A)"
  using absent_sentinel [of ex_A "''x''" ex_world 7 "Num 5" 2 True]
    absent_sentinel [of ex_A "''z''" ex_world 7 "Num 5" "- 3" True]
  by (simp add: ex_A_def)

text \<open>
  Claim C9. When \<open>count\<close> is greater than the size of the container, \<open>last(count)\<close>
  returns all the entries as key/value pairs in insertion order.
\<close>

theorem last_count_clamped:
  "int (length m) < count \<Longrightarrow> last_tm m count = map (\<lambda>(k, it). (k, item_value it)) m"
  by (simp add: last_tm_def last_loop_all entries_tm_map)

theorem last_count_clamped_witness:
  "int (length ex_A) < 5 \<and> last_tm ex_A 5 = [(''x'', 1), (''y'', 2)]"
  using last_count_clamped [of ex_A 5] by (simp add: ex_A_def)

text \<open>
  Claim C10. \<open>forEach(fn, thisArg)\<close> calls \<open>fn(key, value, map)\<close> once per entry, in
  insertion order, with the key first and the value second; the receiver of the calls is
  \<open>thisArg\<close> when \<open>thisArg\<close> is truthy; the method returns the container. The second
  equation runs a callback that records its receiver and arguments.
\<close>

theorem forEach_calls:
  "forEach m fn thisArg s =
     (fold (\<lambda>(k, v). (if truthy thisArg then fn thisArg else fn JUndefined) k v m)
        (map (\<lambda>(k, it). (k, item_value it)) m) s, m) \<and>
   forEach m (\<lambda>th k v mp log. log @ [(th, k, v, mp)]) thisArg [] =
     (map (\<lambda>(k, it). (if truthy thisArg then thisArg else JUndefined, k, item_value it, m)) m, m)"
proof
  show "forEach m fn thisArg s =
     (fold (\<lambda>(k, v). (if truthy thisArg then fn thisArg else fn JUndefined) k v m)
        (map (\<lambda>(k, it). (k, item_value it)) m) s, m)"
    by (simp add: forEach_def Let_def forEach_loop_fold entries_tm_map)
  show "forEach m (\<lambda>th k v mp log. log @ [(th, k, v, mp)]) thisArg [] =
     (map (\<lambda>(k, it). (if truthy thisArg then thisArg else JUndefined, k, item_value it, m)) m, m)"
    by (simp add: forEach_def Let_def forEach_loop_log entries_tm_map comp_def
        case_prod_unfold)
qed

subsection \<open>The default comparator\<close>

text \<open>
  Claim C5. The default comparator compares the values themselves: on the numbers 10
  and 9 it returns 1, while their string conversions \<open>''10''\<close> and \<open>''9''\<close> compare the
  other way; so \<open>sort()\<close> on a container holding 10 and then 9 puts 9 first.
\<close>

theorem defaultSort_compares_numbers:
  "defaultSort (JNum 10) (JNum 9) = 1 \<and>
   str_compare (ToString (JNum 10)) (ToString (JNum 9)) = - 1 \<and>
   sort_tm w ex_nums (\<lambda>a b ka kb. defaultSort a b) rt =
     (w, [(''b'', \<lparr>item_value = JNum 9, timer = None\<rparr>),
          (''a'', \<lparr>item_value = JNum 10, timer = None\<rparr>)])"
  by (simp add: defaultSort_def js_gt_def str_compare_def sort_tm_def ex_nums_def clear_def sweep_def
      deleteItem_def has_def keys_def map_delete_def host_clearTimeout_def copyItem_def
      getItemTimeout_def set_tm_def setItem_def priv_setTimeout_def Let_def)

subsection \<open>The copy primitive and the loops over it\<close>

lemma keys_store [simp]: "keys (store m key it) = keys m"
  by (induction m) (auto simp: keys_def store_def)

lemma map_set_absent: "key \<notin> set (keys m) \<Longrightarrow> map_set m key it = m @ [(key, it)]"
  by (induction m) (auto simp: keys_def)

lemma map_set_present: "key \<in> set (keys m) \<Longrightarrow> keys (map_set m key it) = keys m"
  by (induction m) (force simp: keys_def)+

lemma map_of_absent: "key \<notin> set (keys m) \<Longrightarrow> map_of m key = None"
  by (simp add: keys_def map_of_eq_None_iff)

lemma map_of_present: "key \<in> set (keys m) \<Longrightarrow> \<exists>it. map_of m key = Some it"
  by (induction m) (auto simp: keys_def)

lemma getItemTimeout_Null: "(getItemTimeout n (Some it) (\<not> rt) = Null) = (\<not> copied n rt it)"
  by (auto simp: getItemTimeout_def copied_def expired_def remaining_time_def Let_def split: option.splits)

lemma copyItem_skip: "\<not> copied (now w) rt it \<Longrightarrow> copyItem w m key it ens rt = (None, w, m)"
  by (simp add: copyItem_def Let_def getItemTimeout_Null)

lemma armed_ext: "armed w k it \<Longrightarrow> timers w' = timers w @ ext \<Longrightarrow> armed w' k it"
  by (auto simp: armed_def nth_append split: option.splits)

lemma setItem_fresh:
  assumes "key \<notin> set (keys m)"
  shows "\<exists>w' it'. setItem w m key None v t = (v, w', m @ [(key, it')]) \<and>
           view it' = (v, case t of Num d \<Rightarrow> if d > 0 then Some (d, now w) else None | _ \<Rightarrow> None) \<and>
           now w' = now w \<and> (\<exists>ext. timers w' = timers w @ ext) \<and> armed w' key it'"
  using assms
  by (cases t) (auto simp: setItem_def priv_setTimeout_def host_setTimeout_def Let_def
      map_set_absent view_def armed_def nth_append)

lemma copy_tmo:
  "copied n rt it \<Longrightarrow>
    (case getItemTimeout n (Some it) (\<not> rt) of Num d \<Rightarrow> if d > 0 then Some (d, n) else None | _ \<Rightarrow> None)
     = copy_timer n rt it"
  by (auto simp: getItemTimeout_def copied_def expired_def copy_timer_def remaining_time_def Let_def
      split: option.splits)

lemma copyItem_fresh:
  assumes "copied (now w) rt it" "key \<notin> set (keys m)"
  shows "\<exists>w' it'. copyItem w m key it ens rt = (Some (item_value it), w', m @ [(key, it')]) \<and>
           view it' = (item_value it, copy_timer (now w) rt it) \<and>
           now w' = now w \<and> (\<exists>ext. timers w' = timers w @ ext) \<and> armed w' key it'"
proof -
  let ?t = "getItemTimeout (now w) (Some it) (\<not> rt)"
  from setItem_fresh [OF assms(2), of w "item_value it" ?t]
  obtain w' it' where s: "setItem w m key None (item_value it) ?t = (item_value it, w', m @ [(key, it')])"
    and v: "view it' = (item_value it, case ?t of Num d \<Rightarrow> if d > 0 then Some (d, now w) else None | _ \<Rightarrow> None)"
    and r: "now w' = now w" "\<exists>ext. timers w' = timers w @ ext" "armed w' key it'"
    by blast
  have n: "?t \<noteq> Null" using assms(1) by (simp add: getItemTimeout_Null)
  have mo: "map_of m key = None" using assms(2) by (rule map_of_absent)
  have "copyItem w m key it ens rt = (Some (item_value it), w', m @ [(key, it')])"
    using n s mo by (simp add: copyItem_def Let_def ensure_def getItem_def set_tm_def)
  moreover have "view it' = (item_value it, copy_timer (now w) rt it)"
    using v copy_tmo [OF assms(1)] by simp
  ultimately show ?thesis using r by blast
qed

lemma refreshItemTimeout_item: "snd (refreshItemTimeout w it) = refreshed (now w) it"
  by (auto simp: refreshItemTimeout_def refreshed_def split: option.splits)

lemma refreshItemTimeout_now: "now (fst (refreshItemTimeout w it)) = now w"
  by (auto simp: refreshItemTimeout_def host_refresh_def split: option.splits)

lemma copyItem_hit:
  assumes "copied (now w) rt it" "map_of m key = Some it0"
  shows "copyItem w m key it True rt =
     (Some (item_value it0), fst (refreshItemTimeout w it0), store m key (refreshed (now w) it0))"
proof -
  have n: "getItemTimeout (now w) (Some it) (\<not> rt) \<noteq> Null" using assms(1) by (simp add: getItemTimeout_Null)
  have "item_value (refreshed (now w) it0) = item_value it0" by (simp add: refreshed_def)
  then show ?thesis using n assms(2) refreshItemTimeout_item [of w it0]
    by (simp add: copyItem_def Let_def ensure_def getItem_def case_prod_unfold)
qed


lemma keys_append [simp]: "keys (a @ b) = keys a @ keys b"
  by (simp add: keys_def)

lemma keys_Cons [simp]: "keys ((k, it) # m) = k # keys m"
  by (simp add: keys_def)

lemma keys_Nil [simp]: "keys [] = []"
  by (simp add: keys_def)

lemma views_Cons [simp]: "views ((k, it) # m) = (k, view it) # views m"
  by (simp add: views_def)

lemma views_Nil [simp]: "views [] = []"
  by (simp add: views_def)

lemma views_append [simp]: "views (a @ b) = views a @ views b"
  by (simp add: views_def)

lemma filter_loop_char:
  assumes "distinct (keys xs)" "set (keys xs) \<inter> set (keys dst) = {}"
  shows "\<exists>w' new. filter_loop w this dst fn xs rt = (w', dst @ new) \<and> now w' = now w \<and>
     views new = map (\<lambda>(k, it). (k, item_value it, copy_timer (now w) rt it))
                   (filter (\<lambda>(k, it). fn (item_value it) k this \<and> copied (now w) rt it) xs) \<and>
     (\<exists>ext. timers w' = timers w @ ext) \<and> (\<forall>(k, it) \<in> set new. armed w' k it)"
  using assms
proof (induction xs arbitrary: w dst)
  case Nil
  then show ?case by simp
next
  case (Cons x rest)
  obtain key it where x: "x = (key, it)" by (cases x)
  have d: "distinct (keys rest)" and kr: "key \<notin> set (keys rest)"
    and kd: "key \<notin> set (keys dst)" and disj: "set (keys rest) \<inter> set (keys dst) = {}"
    using Cons.prems by (auto simp: x)
  show ?case
  proof (cases "fn (item_value it) key this \<and> copied (now w) rt it")
    case False
    then have e: "filter_loop w this dst fn (x # rest) rt = filter_loop w this dst fn rest rt"
      by (auto simp: x copyItem_skip)
    have f: "filter (\<lambda>(k, it). fn (item_value it) k this \<and> copied (now w) rt it) (x # rest) =
             filter (\<lambda>(k, it). fn (item_value it) k this \<and> copied (now w) rt it) rest"
      using False by (auto simp: x)
    from Cons.IH [OF d disj, of w] show ?thesis
      unfolding e f .
  next
    case True
    from copyItem_fresh [of w rt it key dst False] True kd
    obtain w1 it1 where c: "copyItem w dst key it False rt = (Some (item_value it), w1, dst @ [(key, it1)])"
      and v: "view it1 = (item_value it, copy_timer (now w) rt it)"
      and n1: "now w1 = now w" and e1: "\<exists>ext. timers w1 = timers w @ ext" and a1: "armed w1 key it1"
      by blast
    have e: "filter_loop w this dst fn (x # rest) rt = filter_loop w1 this (dst @ [(key, it1)]) fn rest rt"
      using True c by (simp add: x)
    have disj1: "set (keys rest) \<inter> set (keys (dst @ [(key, it1)])) = {}"
      using disj kr by auto
    from Cons.IH [OF d disj1, of w1]
    obtain w' new where r: "filter_loop w1 this (dst @ [(key, it1)]) fn rest rt = (w', (dst @ [(key, it1)]) @ new)"
      and n': "now w' = now w1"
      and vs: "views new = map (\<lambda>(k, it). (k, item_value it, copy_timer (now w1) rt it))
                   (filter (\<lambda>(k, it). fn (item_value it) k this \<and> copied (now w1) rt it) rest)"
      and e': "\<exists>ext. timers w' = timers w1 @ ext" and a': "\<forall>(k, it) \<in> set new. armed w' k it"
      by blast
    have "filter_loop w this dst fn (x # rest) rt = (w', dst @ ((key, it1) # new))"
      using e r by simp
    moreover have "now w' = now w" using n' n1 by simp
    moreover have "views ((key, it1) # new) = map (\<lambda>(k, it). (k, item_value it, copy_timer (now w) rt it))
                   (filter (\<lambda>(k, it). fn (item_value it) k this \<and> copied (now w) rt it) (x # rest))"
      using True vs v n1 by (simp add: x)
    moreover have "\<exists>ext. timers w' = timers w @ ext" using e1 e' by auto
    moreover have "\<forall>(k, it) \<in> set ((key, it1) # new). armed w' k it"
      using a' a1 e' by (auto intro: armed_ext)
    ultimately show ?thesis by blast
  qed
qed

lemma copy_loop_filter: "copy_loop w dst xs rt = filter_loop w this dst (\<lambda>v k mp. True) xs rt"
  by (induction xs arbitrary: w dst) (auto split: prod.splits)

lemma partition_loop_char:
  assumes "distinct (keys xs)" "set (keys xs) \<inter> set (keys d0) = {}" "set (keys xs) \<inter> set (keys d1) = {}"
  shows "\<exists>w' n0 n1. partition_loop w this d0 d1 fn xs rt = (w', d0 @ n0, d1 @ n1) \<and> now w' = now w \<and>
     views n0 = map (\<lambda>(k, it). (k, item_value it, copy_timer (now w) rt it))
                   (filter (\<lambda>(k, it). fn (item_value it) k this \<and> copied (now w) rt it) xs) \<and>
     views n1 = map (\<lambda>(k, it). (k, item_value it, copy_timer (now w) rt it))
                   (filter (\<lambda>(k, it). \<not> fn (item_value it) k this \<and> copied (now w) rt it) xs)"
  using assms
proof (induction xs arbitrary: w d0 d1)
  case Nil
  then show ?case by simp
next
  case (Cons x rest)
  obtain key it where x: "x = (key, it)" by (cases x)
  have d: "distinct (keys rest)" and kr: "key \<notin> set (keys rest)"
    and k0: "key \<notin> set (keys d0)" and k1: "key \<notin> set (keys d1)"
    and disj0: "set (keys rest) \<inter> set (keys d0) = {}"
    and disj1: "set (keys rest) \<inter> set (keys d1) = {}"
    using Cons.prems by (auto simp: x)
  show ?case
  proof (cases "copied (now w) rt it")
    case False
    then have e: "partition_loop w this d0 d1 fn (x # rest) rt = partition_loop w this d0 d1 fn rest rt"
      by (auto simp: x copyItem_skip)
    have f: "filter (\<lambda>(k, it). fn (item_value it) k this \<and> copied (now w) rt it) (x # rest) =
             filter (\<lambda>(k, it). fn (item_value it) k this \<and> copied (now w) rt it) rest"
       "filter (\<lambda>(k, it). \<not> fn (item_value it) k this \<and> copied (now w) rt it) (x # rest) =
             filter (\<lambda>(k, it). \<not> fn (item_value it) k this \<and> copied (now w) rt it) rest"
      using False by (auto simp: x)
    from Cons.IH [OF d disj0 disj1, of w] show ?thesis
      unfolding e f .
  next
    case True
    show ?thesis
    proof (cases "fn (item_value it) key this")
      case fnT: True
      from copyItem_fresh [of w rt it key d0 False] True k0
      obtain w1 it1 where c: "copyItem w d0 key it False rt = (Some (item_value it), w1, d0 @ [(key, it1)])"
        and v: "view it1 = (item_value it, copy_timer (now w) rt it)"
        and n1: "now w1 = now w"
        by blast
      have e: "partition_loop w this d0 d1 fn (x # rest) rt =
               partition_loop w1 this (d0 @ [(key, it1)]) d1 fn rest rt"
        using fnT c by (simp add: x)
      have disj0': "set (keys rest) \<inter> set (keys (d0 @ [(key, it1)])) = {}"
        using disj0 kr by auto
      from Cons.IH [OF d disj0' disj1, of w1]
      obtain w' n0 n1' where r: "partition_loop w1 this (d0 @ [(key, it1)]) d1 fn rest rt =
            (w', (d0 @ [(key, it1)]) @ n0, d1 @ n1')"
        and n': "now w' = now w1"
        and vs0: "views n0 = map (\<lambda>(k, it). (k, item_value it, copy_timer (now w1) rt it))
                   (filter (\<lambda>(k, it). fn (item_value it) k this \<and> copied (now w1) rt it) rest)"
        and vs1: "views n1' = map (\<lambda>(k, it). (k, item_value it, copy_timer (now w1) rt it))
                   (filter (\<lambda>(k, it). \<not> fn (item_value it) k this \<and> copied (now w1) rt it) rest)"
        by blast
      have "partition_loop w this d0 d1 fn (x # rest) rt = (w', d0 @ ((key, it1) # n0), d1 @ n1')"
        using e r by simp
      moreover have "now w' = now w" using n' n1 by simp
      moreover have "views ((key, it1) # n0) = map (\<lambda>(k, it). (k, item_value it, copy_timer (now w) rt it))
                   (filter (\<lambda>(k, it). fn (item_value it) k this \<and> copied (now w) rt it) (x # rest))"
        using True fnT vs0 v n1 by (simp add: x)
      moreover have "views n1' = map (\<lambda>(k, it). (k, item_value it, copy_timer (now w) rt it))
                   (filter (\<lambda>(k, it). \<not> fn (item_value it) k this \<and> copied (now w) rt it) (x # rest))"
        using fnT vs1 n1 by (simp add: x)
      ultimately show ?thesis by blast
    next
      case fnF: False
      from copyItem_fresh [of w rt it key d1 False] True k1
      obtain w1 it1 where c: "copyItem w d1 key it False rt = (Some (item_value it), w1, d1 @ [(key, it1)])"
        and v: "view it1 = (item_value it, copy_timer (now w) rt it)"
        and n1: "now w1 = now w"
        by blast
      have e: "partition_loop w this d0 d1 fn (x # rest) rt =
               partition_loop w1 this d0 (d1 @ [(key, it1)]) fn rest rt"
        using fnF c by (simp add: x)
      have disj1': "set (keys rest) \<inter> set (keys (d1 @ [(key, it1)])) = {}"
        using disj1 kr by auto
      from Cons.IH [OF d disj0 disj1', of w1]
      obtain w' n0 n1' where r: "partition_loop w1 this d0 (d1 @ [(key, it1)]) fn rest rt =
            (w', d0 @ n0, (d1 @ [(key, it1)]) @ n1')"
        and n': "now w' = now w1"
        and vs0: "views n0 = map (\<lambda>(k, it). (k, item_value it, copy_timer (now w1) rt it))
                   (filter (\<lambda>(k, it). fn (item_value it) k this \<and> copied (now w1) rt it) rest)"
        and vs1: "views n1' = map (\<lambda>(k, it). (k, item_value it, copy_timer (now w1) rt it))
                   (filter (\<lambda>(k, it). \<not> fn (item_value it) k this \<and> copied (now w1) rt it) rest)"
        by blast
      have "partition_loop w this d0 d1 fn (x # rest) rt = (w', d0 @ n0, d1 @ ((key, it1) # n1'))"
        using e r by simp
      moreover have "now w' = now w" using n' n1 by simp
      moreover have "views ((key, it1) # n1') = map (\<lambda>(k, it). (k, item_value it, copy_timer (now w) rt it))
                   (filter (\<lambda>(k, it). \<not> fn (item_value it) k this \<and> copied (now w) rt it) (x # rest))"
        using True fnF vs1 v n1 by (simp add: x)
      moreover have "views n0 = map (\<lambda>(k, it). (k, item_value it, copy_timer (now w) rt it))
                   (filter (\<lambda>(k, it). fn (item_value it) k this \<and> copied (now w) rt it) (x # rest))"
        using fnF vs0 n1 by (simp add: x)
      ultimately show ?thesis by blast
    qed
  qed
qed

lemma distinct_keys_unique:
  "distinct (keys m) \<Longrightarrow> map_of m key = Some it0 \<Longrightarrow> (key, i) \<in> set m \<Longrightarrow> i = it0"
  by (simp add: keys_def)

lemma store_refreshed:
  assumes "distinct (keys m)" "map_of m key = Some it0"
  shows "store m key (refreshed n it0) = refresh_hits n {key} m"
  unfolding store_def refresh_hits_def
  by (rule map_cong) (auto dest: distinct_keys_unique [OF assms])

lemma refreshed_idem [simp]: "refreshed n (refreshed n i) = refreshed n i"
  by (cases "timer i") (simp_all add: refreshed_def)

lemma refresh_hits_comp: "refresh_hits n H (refresh_hits n G m) = refresh_hits n (G \<union> H) m"
  by (auto simp: refresh_hits_def)

lemma keys_refresh_hits [simp]: "keys (refresh_hits n H m) = keys m"
  by (induction m) (auto simp: refresh_hits_def keys_def)

lemma in_keys: "(k, i) \<in> set m \<Longrightarrow> k \<in> set (keys m)"
  by (force simp: keys_def)

lemma refresh_hits_cong:
  assumes "H \<inter> set (keys m) = G \<inter> set (keys m)"
  shows "refresh_hits n H m = refresh_hits n G m"
  unfolding refresh_hits_def
proof (rule map_cong)
  fix x assume "x \<in> set m"
  then have "fst x \<in> set (keys m)" by (simp add: keys_def)
  then have "(fst x \<in> H) = (fst x \<in> G)" using assms by blast
  then show "(case x of (k, i) \<Rightarrow> (k, if k \<in> H then refreshed n i else i)) =
             (case x of (k, i) \<Rightarrow> (k, if k \<in> G then refreshed n i else i))"
    by (cases x) simp
qed simp

lemma concat_loop_char:
  assumes "distinct (keys other)" "distinct (keys this)"
  shows "\<exists>w' new. concat_loop w this other rt =
       (w', refresh_hits (now w) (set (keys (filter (\<lambda>(k, it). copied (now w) rt it) other))) this @ new) \<and>
     now w' = now w \<and>
     views new = map (\<lambda>(k, it). (k, item_value it, copy_timer (now w) rt it))
                   (filter (\<lambda>(k, it). copied (now w) rt it \<and> k \<notin> set (keys this)) other)"
  using assms
proof (induction other arbitrary: w this)
  case Nil
  then show ?case by (simp add: refresh_hits_def)
next
  case (Cons x rest)
  obtain key it where x: "x = (key, it)" by (cases x)
  have d: "distinct (keys rest)" and kr: "key \<notin> set (keys rest)"
    using Cons.prems by (auto simp: x)
  let ?H = "\<lambda>os. set (keys (filter (\<lambda>(k, it). copied (now w) rt it) os))"
  have Hsub: "?H rest \<subseteq> set (keys rest)" by (auto simp: keys_def)
  show ?case
  proof (cases "copied (now w) rt it")
    case False
    then have e: "concat_loop w this (x # rest) rt = concat_loop w this rest rt"
      by (auto simp: x copyItem_skip)
    have f: "filter (\<lambda>(k, it). copied (now w) rt it \<and> k \<notin> set (keys this)) (x # rest) =
             filter (\<lambda>(k, it). copied (now w) rt it \<and> k \<notin> set (keys this)) rest"
       "filter (\<lambda>(k, it). copied (now w) rt it) (x # rest) =
             filter (\<lambda>(k, it). copied (now w) rt it) rest"
      using False by (auto simp: x)
    from Cons.IH [OF d Cons.prems(2), of w] show ?thesis
      unfolding e f .
  next
    case True
    show ?thesis
    proof (cases "key \<in> set (keys this)")
      case False
      from copyItem_fresh [of w rt it key this True] True False
      obtain w1 it1 where c: "copyItem w this key it True rt = (Some (item_value it), w1, this @ [(key, it1)])"
        and v: "view it1 = (item_value it, copy_timer (now w) rt it)"
        and n1: "now w1 = now w"
        by blast
      have e: "concat_loop w this (x # rest) rt = concat_loop w1 (this @ [(key, it1)]) rest rt"
        using c by (simp add: x)
      have d1: "distinct (keys (this @ [(key, it1)]))" using Cons.prems(2) False by simp
      from Cons.IH [OF d d1, of w1]
      obtain w' new where r: "concat_loop w1 (this @ [(key, it1)]) rest rt =
            (w', refresh_hits (now w) (?H rest) (this @ [(key, it1)]) @ new)"
        and n': "now w' = now w1"
        and vs: "views new = map (\<lambda>(k, it). (k, item_value it, copy_timer (now w) rt it))
                   (filter (\<lambda>(k, it). copied (now w) rt it \<and> k \<notin> set (keys (this @ [(key, it1)]))) rest)"
        unfolding n1 by blast
      have kH: "key \<notin> ?H rest" using kr Hsub by blast
      have rh: "refresh_hits (now w) (?H rest) (this @ [(key, it1)]) =
                refresh_hits (now w) (?H (x # rest)) this @ [(key, it1)]"
      proof -
        have "refresh_hits (now w) (?H rest) this = refresh_hits (now w) (?H (x # rest)) this"
          by (rule refresh_hits_cong) (use False True in \<open>auto simp: x\<close>)
        then show ?thesis using kH by (simp add: refresh_hits_def)
      qed
      have fl: "filter (\<lambda>(k, it). copied (now w) rt it \<and> k \<notin> set (keys (this @ [(key, it1)]))) rest =
                filter (\<lambda>(k, it). copied (now w) rt it \<and> k \<notin> set (keys this)) rest"
        by (rule filter_cong) (use kr in \<open>auto dest: in_keys\<close>)
      have "concat_loop w this (x # rest) rt =
            (w', refresh_hits (now w) (?H (x # rest)) this @ ((key, it1) # new))"
        using e r rh by simp
      moreover have "now w' = now w" using n' n1 by simp
      moreover have "views ((key, it1) # new) = map (\<lambda>(k, it). (k, item_value it, copy_timer (now w) rt it))
                   (filter (\<lambda>(k, it). copied (now w) rt it \<and> k \<notin> set (keys this)) (x # rest))"
        using True False vs v fl by (simp add: x)
      ultimately show ?thesis by blast
    next
      case kin: True
      then obtain it0 where mo: "map_of this key = Some it0" using map_of_present by fastforce
      let ?w1 = "fst (refreshItemTimeout w it0)"
      let ?this1 = "refresh_hits (now w) {key} this"
      have c: "copyItem w this key it True rt = (Some (item_value it0), ?w1, ?this1)"
        using copyItem_hit [OF True mo] store_refreshed [OF Cons.prems(2) mo] by simp
      have n1: "now ?w1 = now w" by (rule refreshItemTimeout_now)
      have e: "concat_loop w this (x # rest) rt = concat_loop ?w1 ?this1 rest rt"
        using c by (simp add: x)
      have d1: "distinct (keys ?this1)" using Cons.prems(2) by simp
      from Cons.IH [OF d d1, of ?w1]
      obtain w' new where r: "concat_loop ?w1 ?this1 rest rt =
            (w', refresh_hits (now w) (?H rest) ?this1 @ new)"
        and n': "now w' = now ?w1"
        and vs: "views new = map (\<lambda>(k, it). (k, item_value it, copy_timer (now w) rt it))
                   (filter (\<lambda>(k, it). copied (now w) rt it \<and> k \<notin> set (keys ?this1)) rest)"
        unfolding n1 by blast
      have rh: "refresh_hits (now w) (?H rest) ?this1 = refresh_hits (now w) (?H (x # rest)) this"
        unfolding refresh_hits_comp
        by (rule arg_cong [where f = "\<lambda>H. refresh_hits (now w) H this"]) (use True in \<open>auto simp: x\<close>)
      have "concat_loop w this (x # rest) rt =
            (w', refresh_hits (now w) (?H (x # rest)) this @ new)"
        using e r rh by simp
      moreover have "now w' = now w" using n' n1 by simp
      moreover have "views new = map (\<lambda>(k, it). (k, item_value it, copy_timer (now w) rt it))
                   (filter (\<lambda>(k, it). copied (now w) rt it \<and> k \<notin> set (keys this)) (x # rest))"
        using kin vs by (simp add: x)
      ultimately show ?thesis by blast
    qed
  qed
qed

subsection \<open>Setting an existing key\<close>

lemma map_of_store_other: "k \<noteq> key \<Longrightarrow> map_of (store m key it') k = map_of m k"
  by (induction m) (auto simp: store_def)

lemma map_of_store_same: "map_of m key = Some it \<Longrightarrow> map_of (store m key it') key = Some it'"
  by (induction m) (auto simp: store_def split: if_splits)

lemma setItem_store:
  "\<exists>it'. snd (snd (setItem w m key (Some it) v t)) = store m key it' \<and>
         fst (setItem w m key (Some it) v t) = v"
  by (cases t) (auto simp: setItem_def Let_def case_prod_unfold)

lemma set_existing_props:
  assumes "map_of m key = Some it" and "set_tm w m key v t = (r, w', m')"
    and "map_of m' key = Some it'"
  shows "item_value it' = v \<and> now w' = now w \<and>
       (armed w key it \<longrightarrow> armed w' key it') \<and>
       (t = Undefined \<longrightarrow>
          timer it' = map_option (\<lambda>tm. tm\<lparr>timestamp := now w\<rparr>) (timer it) \<and>
          length (timers w') = length (timers w)) \<and>
       (t = Null \<longrightarrow> timer it' = timer it \<and> w' = w) \<and>
       (\<forall>n. t = Num n \<longrightarrow>
          (\<forall>tm. timer it = Some tm \<and> handle tm < length (timers w)
                  \<longrightarrow> \<not> active (timers w' ! handle tm)) \<and>
          (0 < n \<longrightarrow>
             timer it' = Some \<lparr>handle = length (timers w), timeout = n, timestamp = now w\<rparr> \<and>
             timers w' = timers (host_clearTimeout w (map_option handle (timer it))) @
                [\<lparr>cb_key = key, duration = n, start = now w, active = True\<rparr>]) \<and>
          (n \<le> 0 \<longrightarrow>
             timer it' = None \<and>
             w' = host_clearTimeout w (map_option handle (timer it))))"
proof (cases t)
  case Undefined
  show ?thesis
  proof (cases "timer it")
    case None
    then show ?thesis using assms Undefined
      by (auto simp: set_tm_def setItem_def Let_def map_of_store_same armed_def)
  next
    case (Some tm)
    then show ?thesis using assms Undefined
      by (auto simp: set_tm_def setItem_def Let_def map_of_store_same armed_def refreshItemTimeout_def
          host_refresh_def)
  qed
next
  case Null
  then show ?thesis using assms
    by (auto simp: set_tm_def setItem_def Let_def map_of_store_same armed_def)
next
  case (Num n)
  show ?thesis
  proof (cases "timer it")
    case None
    then show ?thesis using assms Num
      by (auto simp: set_tm_def setItem_def Let_def map_of_store_same armed_def priv_setTimeout_def
          host_setTimeout_def host_clearTimeout_def nth_append split: if_splits)
  next
    case (Some tm)
    then show ?thesis using assms Num
      by (auto simp: set_tm_def setItem_def Let_def map_of_store_same armed_def priv_setTimeout_def
          host_setTimeout_def host_clearTimeout_def nth_append split: if_splits)
  qed
qed





subsection \<open>Sweeping, sorting and the derived collections\<close>

lemma keys_views: "map fst (views m) = keys m"
  by (induction m) (auto simp: views_def keys_def)

lemma entries_views: "entries_tm m = map (\<lambda>(k, v, t). (k, v)) (views m)"
  by (induction m) (auto simp: views_def view_def)

lemma map_delete_absent: "key \<notin> set (keys m) \<Longrightarrow> map_delete m key = m"
  by (induction m) (auto simp: map_delete_def keys_def)

lemma deleteItem_Some:
  "\<exists>w'. deleteItem w m key (Some it) = (Some it, w', map_delete m key) \<and> now w' = now w"
  by (auto simp: deleteItem_def has_def map_delete_absent host_clearTimeout_def split: option.splits)

lemma map_delete_filter:
  "map_delete (filter (\<lambda>(k, i). k \<notin> K) m) key = filter (\<lambda>(k, i). k \<notin> insert key K) m"
  by (induction m) (auto simp: map_delete_def)

lemma sweep_loop_char:
  "\<exists>w' K. sweep_loop w (filter (\<lambda>(k, i). k \<notin> K0) m) fn xs = (w', filter (\<lambda>(k, i). k \<notin> K) m) \<and>
      now w' = now w"
proof (induction xs arbitrary: w K0)
  case Nil
  then show ?case by auto
next
  case (Cons x rest)
  obtain key it where x: "x = (key, it)" by (cases x)
  let ?m = "filter (\<lambda>(k, i). k \<notin> K0) m"
  show ?case
  proof (cases "fn (item_value it) key ?m")
    case False
    then show ?thesis using Cons.IH [of w K0] by (simp add: x)
  next
    case True
    from deleteItem_Some [of w ?m key it] obtain w1
      where d: "deleteItem w ?m key (Some it) = (Some it, w1, map_delete ?m key)" and n: "now w1 = now w"
      by blast
    have e: "sweep_loop w ?m fn (x # rest) = sweep_loop w1 (filter (\<lambda>(k, i). k \<notin> insert key K0) m) fn rest"
      using True d by (simp add: x map_delete_filter)
    from Cons.IH [of w1 "insert key K0"] show ?thesis unfolding e n .
  qed
qed

lemma sweep_loop_true:
  "\<exists>w'. sweep_loop w (filter (\<lambda>(k, i). k \<notin> K0) m) (\<lambda>v k mp. True) xs =
       (w', filter (\<lambda>(k, i). k \<notin> K0 \<union> set (keys xs)) m) \<and> now w' = now w"
proof (induction xs arbitrary: w K0)
  case Nil
  then show ?case by auto
next
  case (Cons x rest)
  obtain key it where x: "x = (key, it)" by (cases x)
  let ?m = "filter (\<lambda>(k, i). k \<notin> K0) m"
  from deleteItem_Some [of w ?m key it] obtain w1
    where d: "deleteItem w ?m key (Some it) = (Some it, w1, map_delete ?m key)" and n: "now w1 = now w"
    by blast
  have e: "sweep_loop w ?m (\<lambda>v k mp. True) (x # rest) =
           sweep_loop w1 (filter (\<lambda>(k, i). k \<notin> insert key K0) m) (\<lambda>v k mp. True) rest"
    using d by (simp add: x map_delete_filter)
  have u: "insert key K0 \<union> set (keys rest) = K0 \<union> set (keys (x # rest))" by (auto simp: x)
  from Cons.IH [of w1 "insert key K0"] show ?case unfolding e n u .
qed

lemma filter_empty_keys: "filter (\<lambda>(k, i). k \<notin> {}) m = m"
  by (induction m) auto

lemma filter_all_keys: "filter (\<lambda>(k, i). k \<notin> {} \<union> set (keys m)) m = []"
  by (auto simp: filter_empty_conv dest: in_keys)

lemma clear_char: "\<exists>w'. clear w m = (int (length m), w', []) \<and> now w' = now w"
proof -
  from sweep_loop_true [of w "{}" m m] obtain w'
    where "sweep_loop w m (\<lambda>v k mp. True) m = (w', [])" and "now w' = now w"
    unfolding filter_all_keys filter_empty_keys by blast
  then show ?thesis by (simp add: clear_def sweep_def)
qed

lemma sweep_char:
  "\<exists>n w' K. sweep w m fn = (n, w', filter (\<lambda>(k, i). k \<notin> K) m) \<and> now w' = now w"
proof -
  from sweep_loop_char [of w "{}" m fn m] obtain w' K
    where "sweep_loop w m fn m = (w', filter (\<lambda>(k, i). k \<notin> K) m)" and "now w' = now w"
    unfolding filter_empty_keys by blast
  then have "sweep w m fn =
      (int (length m) - int (length (filter (\<lambda>(k, i). k \<notin> K) m)), w', filter (\<lambda>(k, i). k \<notin> K) m)"
    and "now w' = now w"
    by (simp_all add: sweep_def)
  then show ?thesis by blast
qed

lemma set_insert_sorted: "set (insert_sorted cmp x ys) = insert x (set ys)"
  by (induction ys) auto

lemma set_array_sort: "set (array_sort cmp xs) = set xs"
  by (induction xs) (auto simp: set_insert_sorted)

lemma distinct_keys_insert_sorted:
  "distinct (keys (insert_sorted cmp x ys)) = (fst x \<notin> set (keys ys) \<and> distinct (keys ys))"
  by (induction ys) (auto simp: keys_def set_insert_sorted)

lemma set_keys_array_sort: "set (keys (array_sort cmp xs)) = set (keys xs)"
  by (simp add: keys_def set_array_sort)

lemma distinct_keys_array_sort: "distinct (keys (array_sort cmp xs)) = distinct (keys xs)"
proof (induction xs)
  case Nil
  then show ?case by simp
next
  case (Cons x xs)
  have "keys (x # xs) = fst x # keys xs" by (simp add: keys_def)
  then show ?case using Cons by (simp add: distinct_keys_insert_sorted set_keys_array_sort)
qed

lemma copy_views_filter:
  "map (\<lambda>(k, it). (k, item_value it, copy_timer n rt it))
     (filter (\<lambda>(k, it). P k it \<and> copied n rt it) xs) = copy_views n rt (filter (\<lambda>(k, it). P k it) xs)"
  unfolding copy_views_def filter_filter
  by (rule arg_cong [where f = "map _"], rule filter_cong) auto

lemma filter_tm_char:
  assumes "distinct (keys m)"
  shows "\<exists>w' m'. filter_tm w m fn rt = (w', m') \<and> now w' = now w \<and>
     views m' = copy_views (now w) rt (filter (\<lambda>(k, it). fn (item_value it) k m) m) \<and>
     (\<exists>ext. timers w' = timers w @ ext) \<and> (\<forall>(k, it) \<in> set m'. armed w' k it)"
  using filter_loop_char [OF assms, of "[]" w m fn rt]
  unfolding filter_tm_def copy_views_filter [symmetric] by simp

lemma clone_char:
  assumes "distinct (keys m)"
  shows "\<exists>w' m'. clone w m rt = (w', m') \<and> now w' = now w \<and>
     views m' = copy_views (now w) rt m \<and>
     (\<exists>ext. timers w' = timers w @ ext) \<and> (\<forall>(k, it) \<in> set m'. armed w' k it)"
  using filter_loop_char [OF assms, of "[]" w m "\<lambda>v k mp. True" rt]
  unfolding clone_def copy_loop_filter [of w "[]" m rt m] copy_views_def by simp

lemma partition_tm_char:
  assumes "distinct (keys m)"
  shows "\<exists>w' m0 m1. partition_tm w m fn rt = (w', m0, m1) \<and> now w' = now w \<and>
     views m0 = copy_views (now w) rt (filter (\<lambda>(k, it). fn (item_value it) k m) m) \<and>
     views m1 = copy_views (now w) rt (filter (\<lambda>(k, it). \<not> fn (item_value it) k m) m)"
  using partition_loop_char [OF assms, of "[]" "[]" w m fn rt]
  unfolding partition_tm_def copy_views_filter [symmetric] by simp

lemma sort_tm_char:
  assumes "distinct (keys m)"
  shows "\<exists>w' m'. sort_tm w m fn rt = (w', m') \<and> now w' = now w \<and>
     views m' = copy_views (now w) rt
        (array_sort (\<lambda>a b. fn (item_value (snd a)) (item_value (snd b)) (fst a) (fst b)) m)"
proof -
  let ?es = "array_sort (\<lambda>a b. fn (item_value (snd a)) (item_value (snd b)) (fst a) (fst b)) m"
  obtain w1 where c: "clear w m = (int (length m), w1, [])" and n1: "now w1 = now w"
    using clear_char by blast
  have d: "distinct (keys ?es)" using assms by (simp add: distinct_keys_array_sort)
  from filter_loop_char [OF d, of "[]" w1 m "\<lambda>v k mp. True" rt]
  obtain w' new where "copy_loop w1 [] ?es rt = (w', new)" and "now w' = now w"
    and "views new = copy_views (now w) rt ?es"
    unfolding copy_loop_filter [of w1 "[]" ?es rt m] copy_views_def n1 by auto
  then show ?thesis using c by (simp add: sort_tm_def)
qed

subsection \<open>Entries that are due\<close>

lemma keys_copy_views: "map fst (copy_views n rt xs) = keys (filter (\<lambda>(k, it). copied n rt it) xs)"
  by (simp add: copy_views_def keys_def comp_def case_prod_unfold)

lemma distinct_keys_filter: "distinct (keys xs) \<Longrightarrow> distinct (keys (filter P xs))"
  by (simp add: keys_def distinct_map_filter)

lemma set_keys_filter: "set (keys (filter P xs)) \<subseteq> set (keys xs)"
  by (auto simp: keys_def)

lemma keys_eq_views: "views m' = vs \<Longrightarrow> keys m' = map fst vs"
  using keys_views [of m'] by simp

lemma expired_not_copied:
  assumes "distinct (keys m)" "(key, it) \<in> set m" "expired n it"
  shows "key \<notin> set (keys (filter (\<lambda>(k, i). copied n False i) (filter P m)))"
proof
  assume "key \<in> set (keys (filter (\<lambda>(k, i). copied n False i) (filter P m)))"
  then obtain i where i: "(key, i) \<in> set m" and c: "copied n False i"
    by (auto simp: keys_def)
  from assms(1) i assms(2) have "i = it"
    unfolding keys_def by (rule eq_key_imp_eq_value)
  with c assms(3) show False by (simp add: copied_def)
qed

lemma expired_not_in_copy:
  assumes "distinct (keys m)" "(key, it) \<in> set m" "expired n it"
    and "views m' = copy_views n False (filter P m)"
  shows "key \<notin> set (keys m')"
  using expired_not_copied [OF assms(1-3), of P] keys_eq_views [OF assms(4)]
  by (simp add: keys_copy_views)

lemma copy_timer_recopy:
  "view ib = (v, copy_timer n rt it) \<Longrightarrow> copy_timer n True ib = snd (view ib)"
  by (auto simp: view_def copy_timer_def Let_def split: option.splits if_splits)

lemma views_recopy:
  "views b = map (\<lambda>(k, it). (k, item_value it, copy_timer n rt it)) zs \<Longrightarrow>
   map (\<lambda>(k, it). (k, item_value it, copy_timer n True it)) b = views b"
proof (induction b arbitrary: zs)
  case Nil
  then show ?case by simp
next
  case (Cons x b)
  obtain k ib where x: "x = (k, ib)" by (cases x)
  from Cons.prems obtain z zs' where zs: "zs = z # zs'" by (cases zs) (auto simp: x)
  obtain k' it where z: "z = (k', it)" by (cases z)
  from Cons.prems have v: "view ib = (item_value it, copy_timer n rt it)"
    and r: "views b = map (\<lambda>(k, it). (k, item_value it, copy_timer n rt it)) zs'"
    by (auto simp: x zs z)
  have "item_value ib = fst (view ib)" by (simp add: view_def)
  then have "(item_value ib, copy_timer n True ib) = view ib"
    using copy_timer_recopy [OF v] by (metis prod.collapse)
  then show ?case using Cons.IH [OF r] by (simp add: x)
qed

lemma refresh_hits_none: "H \<inter> set (keys m) = {} \<Longrightarrow> refresh_hits n H m = m"
proof -
  assume "H \<inter> set (keys m) = {}"
  then have "refresh_hits n H m = refresh_hits n {} m"
    by (intro refresh_hits_cong) simp
  also have "\<dots> = m" by (induction m) (auto simp: refresh_hits_def)
  finally show ?thesis .
qed

lemma copied_True [simp]: "copied n True it"
  by (simp add: copied_def)

lemma difference_char:
  assumes "distinct (keys this)" "distinct (keys other)"
  shows "\<exists>w' m'. difference w this other rt = (w', m') \<and> now w' = now w \<and>
     views m' = copy_views (now w) rt (filter (\<lambda>(k, it). \<not> has other k) this) @
                copy_views (now w) rt (filter (\<lambda>(k, it). \<not> has this k) other)"
proof -
  let ?fa = "filter (\<lambda>(k, it). \<not> has other k) this"
  let ?fb = "filter (\<lambda>(k, it). \<not> has this k) other"
  from filter_tm_char [OF assms(1), of w "\<lambda>v key mp. \<not> has other key" rt]
  obtain w1 a where fa: "filter_tm w this (\<lambda>v key mp. \<not> has other key) rt = (w1, a)"
    and n1: "now w1 = now w" and va: "views a = copy_views (now w) rt ?fa"
    by blast
  from filter_tm_char [OF assms(2), of w1 "\<lambda>v key mp. \<not> has this key" rt]
  obtain w2 b where fb: "filter_tm w1 other (\<lambda>v key mp. \<not> has this key) rt = (w2, b)"
    and n2: "now w2 = now w" and vb: "views b = copy_views (now w) rt ?fb"
    unfolding n1 by blast
  have ka: "keys a = keys (filter (\<lambda>(k, it). copied (now w) rt it) ?fa)"
    using keys_eq_views [OF va] by (simp add: keys_copy_views)
  have kb: "keys b = keys (filter (\<lambda>(k, it). copied (now w) rt it) ?fb)"
    using keys_eq_views [OF vb] by (simp add: keys_copy_views)
  have da: "distinct (keys a)" unfolding ka using assms(1) by (intro distinct_keys_filter)
  have db: "distinct (keys b)" unfolding kb using assms(2) by (intro distinct_keys_filter)
  have sa: "set (keys a) \<subseteq> set (keys this)"
    unfolding ka using set_keys_filter by fastforce
  have sb: "\<And>k. k \<in> set (keys b) \<Longrightarrow> k \<notin> set (keys this)"
    unfolding kb by (force simp: keys_def has_def)
  have disj: "set (keys b) \<inter> set (keys a) = {}" using sa sb by blast
  from concat_loop_char [OF db da, of w2 True]
  obtain w' new where c: "concat_loop w2 a b True =
       (w', refresh_hits (now w) (set (keys (filter (\<lambda>(k, it). copied (now w) True it) b))) a @ new)"
    and n': "now w' = now w"
    and vn: "views new = map (\<lambda>(k, it). (k, item_value it, copy_timer (now w) True it))
                   (filter (\<lambda>(k, it). copied (now w) True it \<and> k \<notin> set (keys a)) b)"
    unfolding n2 by blast
  have f1: "filter (\<lambda>(k, it). copied (now w) True it) b = b" by simp
  have f2: "filter (\<lambda>(k, it). copied (now w) True it \<and> k \<notin> set (keys a)) b = b"
    using disj by (auto simp: filter_id_conv dest: in_keys)
  have rh: "refresh_hits (now w) (set (keys b)) a = a"
    using disj by (rule refresh_hits_none)
  have vn': "views new = views b"
    using vn vb unfolding f2 copy_views_def by (simp add: views_recopy)
  have "difference w this other rt = (w', a @ new)"
    using fa fb c by (simp add: difference_def concat_tm_def f1 rh)
  moreover have "views (a @ new) = copy_views (now w) rt ?fa @ copy_views (now w) rt ?fb"
    using va vb vn' by simp
  ultimately show ?thesis using n' by blast
qed


lemma expired_unique:
  assumes "distinct (keys m)" "(key, it) \<in> set m" "expired n it"
    and "(key, i) \<in> set m" "copied n False i"
  shows False
proof -
  from assms(1) assms(4) assms(2) have "i = it"
    unfolding keys_def by (rule eq_key_imp_eq_value)
  with assms(3) assms(5) show False by (simp add: copied_def)
qed





subsection \<open>Copies keep the remaining time\<close>

lemma map_of_views: "map_of (views m) key = map_option view (map_of m key)"
  by (induction m) (auto simp: views_def)

lemma map_of_copy_views:
  "distinct (keys m) \<Longrightarrow> map_of m key = Some it \<Longrightarrow> copied n rt it \<Longrightarrow>
   map_of (copy_views n rt m) key = Some (item_value it, copy_timer n rt it)"
proof (induction m)
  case Nil
  then show ?case by simp
next
  case (Cons x m)
  obtain k i where x: "x = (k, i)" by (cases x)
  show ?case
  proof (cases "k = key")
    case True
    then show ?thesis using Cons.prems by (simp add: x copy_views_def)
  next
    case False
    then have "map_of (copy_views n rt (x # m)) key = map_of (copy_views n rt m) key"
      by (simp add: x copy_views_def)
    then show ?thesis using Cons False by (simp add: x)
  qed
qed

lemma view_timer:
  "view it' = (v, Some (d, n)) \<Longrightarrow>
   item_value it' = v \<and> (\<exists>h. timer it' = Some \<lparr>handle = h, timeout = d, timestamp = n\<rparr>)"
proof -
  assume a: "view it' = (v, Some (d, n))"
  then obtain t where t: "timer it' = Some t" "timeout t = d" "timestamp t = n"
    by (cases "timer it'") (auto simp: view_def)
  have "t = \<lparr>handle = handle t, timeout = d, timestamp = n\<rparr>"
    using t by (cases t) simp
  then have "timer it' = Some \<lparr>handle = handle t, timeout = d, timestamp = n\<rparr>"
    using t(1) by simp
  moreover have "item_value it' = v" using a by (simp add: view_def)
  ultimately show ?thesis by blast
qed

lemma clone_entry:
  assumes "distinct (keys m)" "map_of m key = Some it" "copy_timer (now w) rt it = Some (d, now w)"
    and "copied (now w) rt it"
  shows "\<exists>w' m' it' h. clone w m rt = (w', m') \<and> map_of m' key = Some it' \<and>
      item_value it' = item_value it \<and>
      timer it' = Some \<lparr>handle = h, timeout = d, timestamp = now w\<rparr> \<and>
      h < length (timers w') \<and>
      timers w' ! h = \<lparr>cb_key = key, duration = d, start = now w, active = True\<rparr>"
proof -
  from clone_char [OF assms(1), of w rt]
  obtain w' m' where c: "clone w m rt = (w', m')"
    and v: "views m' = copy_views (now w) rt m"
    and a: "\<forall>(k, it) \<in> set m'. armed w' k it"
    by blast
  have "map_option view (map_of m' key) = Some (item_value it, Some (d, now w))"
    using map_of_copy_views [OF assms(1,2,4)] assms(3) map_of_views [of m' key] v by simp
  then obtain it' where mo: "map_of m' key = Some it'"
    and vi: "view it' = (item_value it, Some (d, now w))"
    by auto
  from view_timer [OF vi] obtain h where iv: "item_value it' = item_value it"
    and t: "timer it' = Some \<lparr>handle = h, timeout = d, timestamp = now w\<rparr>"
    by blast
  have "(key, it') \<in> set m'" using mo by (rule map_of_SomeD)
  with a have "armed w' key it'" by blast
  with t have "h < length (timers w')"
    and "timers w' ! h = \<lparr>cb_key = key, duration = d, start = now w, active = True\<rparr>"
    by (simp_all add: armed_def)
  with c mo iv t show ?thesis by blast
qed




subsection \<open>concat\<close>

lemma map_of_refresh_hits:
  "map_of (refresh_hits n H m) key =
     map_option (\<lambda>i. if key \<in> H then refreshed n i else i) (map_of m key)"
  by (induction m) (auto simp: refresh_hits_def)





subsection \<open>difference and intersect\<close>

lemma entries_copy_views_True:
  "map (\<lambda>(k, v, t). (k, v)) (copy_views n True (filter (\<lambda>(k, it). P k (item_value it)) m)) =
   filter (\<lambda>(k, v). P k v) (entries_tm m)"
  by (induction m) (auto simp: copy_views_def)

lemma in_entries_tm:
  "distinct (keys b) \<Longrightarrow>
   ((k, v) \<in> set (entries_tm b)) = (case map_of b k of None \<Rightarrow> False | Some it \<Rightarrow> v = item_value it)"
proof (induction b)
  case Nil
  then show ?case by simp
next
  case (Cons x b)
  obtain k' i where x: "x = (k', i)" by (cases x)
  have "k' \<notin> fst ` set (entries_tm b)"
    using Cons.prems by (auto simp: x entries_tm_map keys_def image_iff)
  then have "(k', v) \<notin> set (entries_tm b)" by force
  then show ?case using Cons by (auto simp: x)
qed

text \<open>
  Claim C6. For containers with unique keys, \<open>a.difference(b)\<close> holds exactly the
  key/value pairs of \<open>a\<close> whose key \<open>b\<close> lacks, followed by those of \<open>b\<close> whose key
  \<open>a\<close> lacks, and \<open>a.intersect(b)\<close> holds exactly the key/value pairs of \<open>a\<close> that
  are also pairs of \<open>b\<close> (\<open>refreshTimeout\<close> has its default, \<open>true\<close>). For
  \<open>A = {x:1, y:2}\<close> and \<open>B = {y:2, z:3}\<close> without timers, in any world and for either
  flag, \<open>A.intersect(B)\<close> is \<open>{y:2}\<close> and \<open>A.difference(B)\<close> is \<open>{x:1, z:3}\<close>, both
  without timers, and the host is unchanged.
\<close>

theorem difference_intersect_entries:
  assumes "distinct (keys a)" "distinct (keys b)"
  shows "entries_tm (snd (difference w a b True)) =
           filter (\<lambda>(k, v). \<not> has b k) (entries_tm a) @
           filter (\<lambda>(k, v). \<not> has a k) (entries_tm b) \<and>
         entries_tm (snd (intersect w a b True)) =
           filter (\<lambda>e. e \<in> set (entries_tm b)) (entries_tm a) \<and>
         intersect w' ex_A ex_B rt = (w', [(''y'', \<lparr>item_value = 2, timer = None\<rparr>)]) \<and>
         difference w' ex_A ex_B rt =
           (w', [(''x'', \<lparr>item_value = 1, timer = None\<rparr>), (''z'', \<lparr>item_value = 3, timer = None\<rparr>)])"
proof (intro conjI)
  obtain w1 m' where d: "difference w a b True = (w1, m')"
    and v: "views m' = copy_views (now w) True (filter (\<lambda>(k, it). \<not> has b k) a) @
                copy_views (now w) True (filter (\<lambda>(k, it). \<not> has a k) b)"
    using difference_char [OF assms, of w True] by blast
  show "entries_tm (snd (difference w a b True)) =
           filter (\<lambda>(k, v). \<not> has b k) (entries_tm a) @
           filter (\<lambda>(k, v). \<not> has a k) (entries_tm b)"
    unfolding d snd_conv entries_views [of m'] v map_append
    using entries_copy_views_True [of "now w" "\<lambda>k v. \<not> has b k" a]
      entries_copy_views_True [of "now w" "\<lambda>k v. \<not> has a k" b]
    by simp
next
  let ?f = "\<lambda>k v. case map_of b k of None \<Rightarrow> False | Some it \<Rightarrow> v = item_value it"
  obtain w1 m' where d: "intersect w a b True = (w1, m')"
    and v: "views m' = copy_views (now w) True (filter (\<lambda>(k, it). ?f k (item_value it)) a)"
    using filter_tm_char [OF assms(1), of w "\<lambda>v k mp. ?f k v" True] unfolding intersect_def by blast
  have "filter (\<lambda>(k, v). ?f k v) (entries_tm a) = filter (\<lambda>e. e \<in> set (entries_tm b)) (entries_tm a)"
    by (rule filter_cong) (auto simp: in_entries_tm [OF assms(2)])
  then show "entries_tm (snd (intersect w a b True)) =
           filter (\<lambda>e. e \<in> set (entries_tm b)) (entries_tm a)"
    unfolding d snd_conv entries_views [of m'] v
    using entries_copy_views_True [of "now w" ?f a] by simp
next
  show "intersect w' ex_A ex_B rt = (w', [(''y'', \<lparr>item_value = 2, timer = None\<rparr>)])"
    by (simp add: intersect_def filter_tm_def ex_A_def ex_B_def copyItem_def getItemTimeout_def
        set_tm_def setItem_def priv_setTimeout_def Let_def)
next
  show "difference w' ex_A ex_B rt =
           (w', [(''x'', \<lparr>item_value = 1, timer = None\<rparr>), (''z'', \<lparr>item_value = 3, timer = None\<rparr>)])"
    by (simp add: difference_def filter_tm_def concat_tm_def ex_A_def ex_B_def copyItem_def
        getItemTimeout_def has_def keys_def ensure_def getItem_def
        set_tm_def setItem_def priv_setTimeout_def Let_def)
qed


theorem difference_intersect_entries_witness:
  "distinct (keys ex_live) \<and> distinct (keys ex_due) \<and>
   entries_tm (snd (difference ex_world2 ex_live ex_due True)) = [(''b'', 2)] \<and>
   entries_tm (snd (intersect ex_world2 ex_live ex_due True)) = [(''a'', 1)]"
proof -
  have h1: "distinct (keys ex_live)" by (simp add: ex_live_def)
  have h2: "distinct (keys ex_due)" by (simp add: ex_due_def)
  have e: "entries_tm ex_live = [(''a'', 1), (''b'', 2)]" "entries_tm ex_due = [(''a'', 1)]"
    "has ex_due ''a''" "\<not> has ex_due ''b''" "has ex_live ''a''"
    by (simp_all add: ex_live_def ex_due_def has_def)
  from difference_intersect_entries [OF h1 h2, of ex_world2] h1 h2 show ?thesis
    by (simp add: e)
qed

subsection \<open>Unique keys in insertion order\<close>

lemma keys_map_set: "keys (map_set m key it) = (if key \<in> set (keys m) then keys m else keys m @ [key])"
  using map_set_present [of key m it] map_set_absent [of key m it] by simp

lemma setItem_None_map:
  "\<exists>it'. snd (snd (setItem w m key None v t)) = map_set m key it' \<and> fst (setItem w m key None v t) = v"
  by (auto simp: setItem_def Let_def case_prod_unfold)

lemma map_of_None_keys: "(map_of m key = None) = (key \<notin> set (keys m))"
  by (simp add: keys_def map_of_eq_None_iff)

lemma keys_set_tm:
  "keys (snd (snd (set_tm w m key v t))) = (if key \<in> set (keys m) then keys m else keys m @ [key])"
proof (cases "map_of m key")
  case None
  then have k: "key \<notin> set (keys m)" by (simp add: map_of_None_keys)
  from setItem_None_map [of w m key v t] None show ?thesis
    using k by (auto simp: set_tm_def keys_map_set)
next
  case (Some it)
  then have k: "key \<in> set (keys m)" using map_of_None_keys [of m key] by simp
  from setItem_store [of w m key it v t] Some show ?thesis
    using k by (auto simp: set_tm_def)
qed

lemma keys_add:
  "keys (snd (snd (add w m key v t))) = (if key \<in> set (keys m) then keys m else keys m @ [key])"
proof (cases "map_of m key")
  case None
  then have k: "key \<notin> set (keys m)" by (simp add: map_of_None_keys)
  from setItem_None_map [of w m key v t] None show ?thesis
    using k by (auto simp: add_def keys_map_set case_prod_unfold)
next
  case (Some it)
  then have k: "key \<in> set (keys m)" using map_of_None_keys [of m key] by simp
  then show ?thesis using Some by (simp add: add_def)
qed

lemma keys_update: "keys (snd (snd (update w m key v t))) = keys m"
proof (cases "map_of m key")
  case None
  then show ?thesis by (simp add: update_def)
next
  case (Some it)
  from setItem_store [of w m key it v t] Some show ?thesis
    by (auto simp: update_def case_prod_unfold)
qed

lemma keys_getItem: "keys (snd (snd (getItem w m key r))) = keys m"
  by (auto simp: getItem_def case_prod_unfold Let_def split: option.splits)

lemma getItem_None: "(fst (getItem w m key r) = None) = (key \<notin> set (keys m))"
  using map_of_None_keys [of m key]
  by (cases "map_of m key") (auto simp: getItem_def case_prod_unfold Let_def)

lemma keys_get_tm: "keys (snd (snd (get_tm w m key r))) = keys m"
  using keys_getItem [of w m key r] by (simp add: get_tm_def case_prod_unfold Let_def)

lemma keys_ensure:
  "keys (snd (snd (ensure w m key dv t r))) = (if key \<in> set (keys m) then keys m else keys m @ [key])"
proof (cases "fst (getItem w m key r)")
  case None
  then have k: "key \<notin> set (keys m)" by (simp add: getItem_None)
  obtain w1 m1 where g: "getItem w m key r = (None, w1, m1)"
    using None by (cases "getItem w m key r") auto
  have k1: "keys m1 = keys m" using keys_getItem [of w m key r] g by simp
  from setItem_None_map [of w1 m1 key "getValue dv key m1" t] show ?thesis
    using k k1 g by (auto simp: ensure_def keys_map_set)
next
  case (Some it)
  then have k: "key \<in> set (keys m)" using getItem_None [of w m key r] by auto
  obtain w1 m1 where g: "getItem w m key r = (Some it, w1, m1)"
    using Some by (cases "getItem w m key r") auto
  have k1: "keys m1 = keys m" using keys_getItem [of w m key r] g by simp
  show ?thesis using k k1 g by (simp add: ensure_def)
qed

lemma keys_map_delete: "keys (map_delete m key) = filter (\<lambda>k. k \<noteq> key) (keys m)"
  by (induction m) (auto simp: map_delete_def keys_def)

lemma keys_filter_notin: "keys (filter (\<lambda>(k, i). k \<notin> K) m) = filter (\<lambda>k. k \<notin> K) (keys m)"
  by (induction m) (auto simp: keys_def)

lemma keys_delete: "keys (snd (snd (delete w m key))) = filter (\<lambda>k. k \<noteq> key) (keys m)"
proof (cases "map_of m key")
  case None
  then have "key \<notin> set (keys m)" by (simp add: map_of_None_keys)
  then have "filter (\<lambda>k. k \<noteq> key) (keys m) = keys m" by (auto simp: filter_id_conv)
  then show ?thesis using None by (simp add: delete_def deleteItem_def)
next
  case (Some it)
  from deleteItem_Some [of w m key it] Some show ?thesis
    by (auto simp: delete_def keys_map_delete)
qed

lemma keys_at_loop: "keys (snd (snd (at_loop w m xs index i r))) = keys m"
  by (induction xs arbitrary: i) (auto simp: case_prod_unfold Let_def)

lemma first_loop_take:
  "first_loop xs index count items = items @ take (nat (count - index)) (entries_tm xs)"
proof (induction xs arbitrary: index items)
  case Nil
  then show ?case by simp
next
  case (Cons x xs)
  obtain k it where x: "x = (k, it)" by (cases x)
  show ?case
  proof (cases "count \<le> index")
    case True
    then show ?thesis by (simp add: x)
  next
    case False
    then have "nat (count - index) = Suc (nat (count - (index + 1)))" by simp
    then show ?thesis using False Cons.IH [of "index + 1"] by (simp add: x)
  qed
qed

lemma last_loop_drop:
  "last_loop xs sz index count items = items @ drop (nat (sz - count - index)) (entries_tm xs)"
proof (induction xs arbitrary: index items)
  case Nil
  then show ?case by simp
next
  case (Cons x xs)
  obtain k it where x: "x = (k, it)" by (cases x)
  show ?case
  proof (cases "sz - count \<le> index")
    case True
    then have "nat (sz - count - index) = 0" "nat (sz - count - (index + 1)) = 0" by simp_all
    then show ?thesis using True Cons.IH [of "index + 1"] by (simp add: x)
  next
    case False
    then have "nat (sz - count - index) = Suc (nat (sz - count - (index + 1)))" by simp
    then show ?thesis using False Cons.IH [of "index + 1"] by (simp add: x)
  qed
qed

lemma map_loop_take:
  "n \<le> length iter \<Longrightarrow>
   map_loop fn this n iter = Some (map (\<lambda>(k, it). fn (item_value it) k this) (take n iter))"
proof (induction n arbitrary: iter)
  case 0
  then show ?case by simp
next
  case (Suc n)
  then obtain x rest where i: "iter = x # rest" by (cases iter) auto
  obtain k it where x: "x = (k, it)" by (cases x)
  from Suc.prems have "n \<le> length rest" by (simp add: i)
  from Suc.IH [OF this] show ?case by (simp add: i x)
qed


lemma keys_sort_tm:
  assumes "distinct (keys m)"
  shows "distinct (keys (snd (sort_tm w m cmp rt))) \<and> set (keys (snd (sort_tm w m cmp rt))) \<subseteq> set (keys m)"
proof -
  let ?es = "array_sort (\<lambda>a b. cmp (item_value (snd a)) (item_value (snd b)) (fst a) (fst b)) m"
  obtain w' m' where s: "sort_tm w m cmp rt = (w', m')"
    and v: "views m' = copy_views (now w) rt ?es"
    using sort_tm_char [OF assms, of w cmp rt] by auto
  have k: "keys m' = keys (filter (\<lambda>(k, it). copied (now w) rt it) ?es)"
    using keys_eq_views [OF v] by (simp add: keys_copy_views)
  have "distinct (keys m')"
    unfolding k using assms by (intro distinct_keys_filter) (simp add: distinct_keys_array_sort)
  moreover have "set (keys m') \<subseteq> set (keys m)"
    unfolding k using set_keys_filter [of "\<lambda>(k, it). copied (now w) rt it" ?es]
    by (simp add: set_keys_array_sort)
  ultimately show ?thesis using s by simp
qed

lemma keys_concat_tm:
  assumes "distinct (keys m)" "distinct (keys other)"
  shows "distinct (keys (snd (concat_tm w m (Other other) rt))) \<and>
         take (length m) (keys (snd (concat_tm w m (Other other) rt))) = keys m"
proof -
  let ?H = "set (keys (filter (\<lambda>(k, it). copied (now w) rt it) other))"
  let ?f = "filter (\<lambda>(k, it). copied (now w) rt it \<and> k \<notin> set (keys m)) other"
  from concat_loop_char [OF assms(2,1), of w rt]
  obtain w' new where c: "concat_loop w m other rt = (w', refresh_hits (now w) ?H m @ new)"
    and v: "views new = map (\<lambda>(k, it). (k, item_value it, copy_timer (now w) rt it)) ?f"
    by blast
  have k: "keys new = keys ?f"
    using keys_eq_views [OF v] by (simp add: keys_def comp_def case_prod_unfold)
  have d: "distinct (keys new)" unfolding k using assms(2) by (rule distinct_keys_filter)
  have dj: "set (keys m) \<inter> set (keys new) = {}" unfolding k by (force simp: keys_def)
  have l: "length (keys m) = length m" by (simp add: keys_def)
  show ?thesis using c d dj assms(1) l by (simp add: concat_tm_def)
qed

lemma keys_clone:
  assumes "distinct (keys m)"
  shows "keys (snd (clone w m rt)) = keys (filter (\<lambda>(k, it). copied (now w) rt it) m)"
proof -
  obtain w' m' where "clone w m rt = (w', m')" and v: "views m' = copy_views (now w) rt m"
    using clone_char [OF assms, of w rt] by auto
  then show ?thesis using keys_eq_views [OF v] by (simp add: keys_copy_views)
qed




end
